theory Spec2Isabelle
  imports Main "HOL-Library.Multiset"
begin

section \<open>Embedding of \<^verbatim>\<open>detail/parallel-inl.h\<close>\<close>

text \<open>
  The header implements fork-join helpers. Its \<^verbatim>\<open>schedule\<close> runs the task it is given
  inline (\<^verbatim>\<open>fcn()\<close>), and \<^verbatim>\<open>async\<close> only wraps the task in a packaged task and hands it to
  \<^verbatim>\<open>schedule\<close>; every "asynchronous" task has therefore finished when \<^verbatim>\<open>async\<close> returns,
  and the tasks of one call run one after the other in the order in which they are
  launched. The embedding is the resulting sequential program, with the mutated memory
  passed explicitly.

  Conventions.
  \<^item> A random-access iterator is embedded as the memory from the position it points to up to
    the end of the underlying buffer (a list); \<^verbatim>\<open>a + k\<close> is \<open>drop k a\<close>. A function that
    writes through an iterator returns that memory, updated. Reads and writes beyond the
    buffer are undefined behaviour in C++; the theorems below carry the bounds that
    exclude them.
  \<^item> The template parameter \<^verbatim>\<open>IndexType\<close>. In the one-index \<^verbatim>\<open>parallelFor\<close> the only
    arithmetic on it is \<^verbatim>\<open>++i\<close> below \<^verbatim>\<open>end\<close>, which cannot leave the type; there it is
    \<open>int\<close>. In \<^verbatim>\<open>parallelRangeFor\<close> and \<^verbatim>\<open>parallelReduce\<close> the sums \<^verbatim>\<open>end - start + 1\<close>,
    \<^verbatim>\<open>start + slice\<close> and \<^verbatim>\<open>i2 + slice\<close> can leave it; there \<^verbatim>\<open>IndexType\<close> is \<^verbatim>\<open>size_t\<close> of 64
    bits, a value of it is an \<open>int\<close> from 0 up to \<open>2^64 - 1\<close>, and every sum is reduced
    modulo \<open>2^64\<close> (\<open>wrapIndex\<close>), as unsigned arithmetic does.
  \<^item> \<^verbatim>\<open>size_t\<close> and \<^verbatim>\<open>unsigned int\<close> counters are \<open>nat\<close>: they are only incremented up to a
    bound held in the same type, halved, or reduced by a smaller value.
  \<^item> A callable with side effects is a state transformer: \<^verbatim>\<open>func(i)\<close> is
    \<open>func i :: 's \<Rightarrow> 's\<close>.
  \<^item> \<^verbatim>\<open>maxNumberOfThreads()\<close> and the value a \<^verbatim>\<open>std::vector\<close> is filled with on construction
    are declared outside this header; they are parameters (\<open>numThreadsHint\<close>, \<open>vinit\<close>).
  \<^item> \<^verbatim>\<open>std::sort\<close> belongs to the C++ standard library and is a parameter \<open>stdsort\<close>; the
    theorems that need it assume its contract (see \<open>std_sort_contract\<close>).
  \<^item> \<^verbatim>\<open>(IndexType)std::round(n / static_cast<double>(numThreads))\<close> is a double-precision
    computation of the C++ library and is a parameter \<open>stdround\<close>: \<open>stdround n numThreads\<close>
    is the index it yields. The theorems hold for every \<open>stdround\<close>.
\<close>

text \<open>
  Modelled from the spec: the enumeration \<^verbatim>\<open>ExecutionPolicy\<close> is declared outside this
  header, which names only \<^verbatim>\<open>ExecutionPolicy::kParallel\<close>; the spec gives it the two values
  Serial and Parallel.
\<close>

datatype ExecutionPolicy = kSerial | kParallel

text \<open>
  The worker count every entry point computes:
  \<^verbatim>\<open>(policy == kParallel) ? (numThreadsHint == 0u ? 8u : numThreadsHint) : 1\<close>.
\<close>

definition numThreadsOf :: "ExecutionPolicy \<Rightarrow> nat \<Rightarrow> nat" where
  "numThreadsOf policy numThreadsHint =
     (if policy = kParallel then (if numThreadsHint = 0 then 8 else numThreadsHint) else 1)"

subsection \<open>\<^verbatim>\<open>parallelFor\<close> (one index)\<close>

text \<open>\<^verbatim>\<open>for (auto i = start; i < end; ++i) func(i);\<close>\<close>

function forLoop :: "int \<Rightarrow> int \<Rightarrow> (int \<Rightarrow> 's \<Rightarrow> 's) \<Rightarrow> 's \<Rightarrow> 's" where
  "forLoop i endIdx func s =
     (if i < endIdx then forLoop (i + 1) endIdx func (func i s) else s)"
  by pat_completeness auto
termination
  by (relation "measure (\<lambda>(i, endIdx, func, s). nat (endIdx - i))") auto

declare forLoop.simps [simp del]

text \<open>
  Both branches of \<^verbatim>\<open>parallelFor\<close> hold the same loop; under \<^verbatim>\<open>kParallel\<close> it carries
  \<^verbatim>\<open>#pragma omp parallel for\<close>, which runs every iteration once and leaves their order
  open. The embedding runs the iterations in index order in both branches.
\<close>

definition parallelFor ::
  "int \<Rightarrow> int \<Rightarrow> (int \<Rightarrow> 's \<Rightarrow> 's) \<Rightarrow> ExecutionPolicy \<Rightarrow> 's \<Rightarrow> 's" where
  "parallelFor start endIdx func policy s =
     (if start > endIdx then s
      else if policy = kParallel then forLoop start endIdx func s
      else forLoop start endIdx func s)"

text \<open>The indices \<^verbatim>\<open>func\<close> is called with, in call order: \<^verbatim>\<open>func\<close> logs its argument.\<close>

definition parallelFor_calls :: "int \<Rightarrow> int \<Rightarrow> ExecutionPolicy \<Rightarrow> int list" where
  "parallelFor_calls start endIdx policy =
     parallelFor start endIdx (\<lambda>i log. log @ [i]) policy []"

subsection \<open>\<^verbatim>\<open>parallelFill\<close>\<close>

text \<open>
  \<open>mem\<close> is the buffer, \<open>beginIt\<close> and \<open>endIt\<close> are the positions of the two iterators in
  it. \<^verbatim>\<open>begin[i] = value\<close> writes position \<open>beginIt + i\<close>.
\<close>

definition parallelFill ::
  "'a list \<Rightarrow> nat \<Rightarrow> nat \<Rightarrow> 'a \<Rightarrow> ExecutionPolicy \<Rightarrow> 'a list" where
  "parallelFill mem beginIt endIt val policy =
     (let diff = int endIt - int beginIt in
      if diff \<le> 0 then mem
      else (let sz = nat diff in
            parallelFor 0 (int sz) (\<lambda>i m. m[beginIt + nat i := val]) policy mem))"

subsection \<open>\<^verbatim>\<open>merge\<close>\<close>

text \<open>
  The three \<^verbatim>\<open>while\<close> loops of \<^verbatim>\<open>merge\<close>; the loop state is \<open>(i1, i2, tempi, temp)\<close>.
\<close>

function mergeLoop1 ::
  "('a \<Rightarrow> 'a \<Rightarrow> bool) \<Rightarrow> 'a list \<Rightarrow> nat \<Rightarrow> nat \<times> nat \<times> nat \<times> 'a list
     \<Rightarrow> nat \<times> nat \<times> nat \<times> 'a list" where
  "mergeLoop1 compareFunction a sz (i1, i2, tempi, temp) =
     (if i1 < sz div 2 \<and> i2 < sz then
        (if compareFunction (a ! i1) (a ! i2)
         then mergeLoop1 compareFunction a sz (i1 + 1, i2, tempi + 1, temp[tempi := a ! i1])
         else mergeLoop1 compareFunction a sz (i1, i2 + 1, tempi + 1, temp[tempi := a ! i2]))
      else (i1, i2, tempi, temp))"
  by pat_completeness auto
termination
  by (relation "measure (\<lambda>(c, a, sz, i1, i2, tempi, temp). (sz div 2 - i1) + (sz - i2))")
     auto

declare mergeLoop1.simps [simp del]

function mergeLoop2 ::
  "'a list \<Rightarrow> nat \<Rightarrow> nat \<times> nat \<times> nat \<times> 'a list \<Rightarrow> nat \<times> nat \<times> nat \<times> 'a list" where
  "mergeLoop2 a sz (i1, i2, tempi, temp) =
     (if i1 < sz div 2
      then mergeLoop2 a sz (i1 + 1, i2, tempi + 1, temp[tempi := a ! i1])
      else (i1, i2, tempi, temp))"
  by pat_completeness auto
termination
  by (relation "measure (\<lambda>(a, sz, i1, i2, tempi, temp). sz div 2 - i1)") auto

declare mergeLoop2.simps [simp del]

function mergeLoop3 ::
  "'a list \<Rightarrow> nat \<Rightarrow> nat \<times> nat \<times> nat \<times> 'a list \<Rightarrow> nat \<times> nat \<times> nat \<times> 'a list" where
  "mergeLoop3 a sz (i1, i2, tempi, temp) =
     (if i2 < sz
      then mergeLoop3 a sz (i1, i2 + 1, tempi + 1, temp[tempi := a ! i2])
      else (i1, i2, tempi, temp))"
  by pat_completeness auto
termination
  by (relation "measure (\<lambda>(a, sz, i1, i2, tempi, temp). sz - i2)") auto

declare mergeLoop3.simps [simp del]

text \<open>
  \<^verbatim>\<open>merge(a, size, temp, compareFunction)\<close> returns the pair of the memory at \<^verbatim>\<open>a\<close> and the
  memory at \<^verbatim>\<open>temp\<close>. The copy back is the three-argument call
  \<^verbatim>\<open>parallelFor(kZeroSize, size, [&](size_t i) { a[i] = temp[i]; })\<close>; its policy is the
  default argument of a declaration outside this header, taken here to be \<^verbatim>\<open>kParallel\<close>
  (both policies run the same loop).
\<close>

definition merge ::
  "'a list \<Rightarrow> nat \<Rightarrow> 'a list \<Rightarrow> ('a \<Rightarrow> 'a \<Rightarrow> bool) \<Rightarrow> 'a list \<times> 'a list" where
  "merge a sz temp compareFunction =
     (case mergeLoop3 a sz
             (mergeLoop2 a sz (mergeLoop1 compareFunction a sz (0, sz div 2, 0, temp))) of
        (i1, i2, tempi, temp') \<Rightarrow>
          (parallelFor 0 (int sz) (\<lambda>i a'. a'[nat i := temp' ! nat i]) kParallel a, temp'))"

subsection \<open>\<^verbatim>\<open>parallelMergeSort\<close>\<close>

text \<open>
  The result is the pair of the memory at \<^verbatim>\<open>a\<close> and the memory at \<^verbatim>\<open>temp\<close>. The two
  \<^verbatim>\<open>launchRange\<close> tasks run in launch order: the left one on \<^verbatim>\<open>(a, temp)\<close>, then the right
  one on \<^verbatim>\<open>(a + size / 2, temp + size / 2)\<close> of the memory the left one left behind.
\<close>

function parallelMergeSort ::
  "(('a \<Rightarrow> 'a \<Rightarrow> bool) \<Rightarrow> 'a list \<Rightarrow> 'a list) \<Rightarrow> 'a list \<Rightarrow> nat \<Rightarrow> 'a list \<Rightarrow> nat
     \<Rightarrow> ('a \<Rightarrow> 'a \<Rightarrow> bool) \<Rightarrow> 'a list \<times> 'a list" where
  "parallelMergeSort stdsort a sz temp numThreads compareFunction =
     (if numThreads = 1 then
        (stdsort compareFunction (take sz a) @ drop sz a, temp)
      else if numThreads > 1 then
        (case parallelMergeSort stdsort a (sz div 2) temp (numThreads div 2)
                compareFunction of
           (aL, tempL) \<Rightarrow>
             (case parallelMergeSort stdsort (drop (sz div 2) aL) (sz - sz div 2)
                     (drop (sz div 2) tempL) (numThreads - numThreads div 2)
                     compareFunction of
                (aR, tempR) \<Rightarrow>
                  merge (take (sz div 2) aL @ aR) sz (take (sz div 2) tempL @ tempR)
                    compareFunction))
      else (a, temp))"
  by pat_completeness auto
termination
  by (relation "measure (\<lambda>(stdsort, a, sz, temp, numThreads, c). numThreads)") auto

declare parallelMergeSort.simps [simp del]

subsection \<open>\<^verbatim>\<open>parallelSort\<close>\<close>

text \<open>
  \<open>mem\<close> is the buffer and \<open>beginIt\<close>, \<open>endIt\<close> the positions of the iterators in it. The
  scratch vector \<^verbatim>\<open>temp(size)\<close> holds \<open>sz\<close> copies of the value-initialised element
  \<open>vinit\<close> and is dropped on return.
\<close>

definition parallelSort ::
  "(('a \<Rightarrow> 'a \<Rightarrow> bool) \<Rightarrow> 'a list \<Rightarrow> 'a list) \<Rightarrow> nat \<Rightarrow> 'a \<Rightarrow> 'a list \<Rightarrow> nat \<Rightarrow> nat
     \<Rightarrow> ('a \<Rightarrow> 'a \<Rightarrow> bool) \<Rightarrow> ExecutionPolicy \<Rightarrow> 'a list" where
  "parallelSort stdsort numThreadsHint vinit mem beginIt endIt compareFunction policy =
     (if endIt < beginIt then mem
      else (let sz = endIt - beginIt;
                temp = replicate sz vinit;
                numThreads = numThreadsOf policy numThreadsHint
            in take beginIt mem @
               fst (parallelMergeSort stdsort (drop beginIt mem) sz temp numThreads
                      compareFunction)))"

subsection \<open>\<^verbatim>\<open>parallelRangeFor\<close> (one index)\<close>

text \<open>Unsigned 64-bit arithmetic: a sum or difference is reduced modulo \<open>2^64\<close>.\<close>

definition wrapIndex :: "int \<Rightarrow> int" where
  "wrapIndex x = x mod 2 ^ 64"

text \<open>
  The quotient rounded to the nearest integer, halves away from zero. This is what
  \<^verbatim>\<open>std::round\<close> gives on the exact quotient; the double-precision computation of the source
  agrees with it while \<open>n\<close> stays below \<open>2^52\<close>. It is the \<open>stdround\<close> of the statements
  that are evaluated on concrete data.
\<close>

definition roundQuot :: "int \<Rightarrow> nat \<Rightarrow> int" where
  "roundQuot n numThreads =
     (if 0 \<le> n then (2 * n + int numThreads) div (2 * int numThreads)
      else - ((2 * (- n) + int numThreads) div (2 * int numThreads)))"

text \<open>
  \<^verbatim>\<open>IndexType n = end - start + 1;\<close>
  \<^verbatim>\<open>IndexType slice = (IndexType)std::round(n / static_cast<double>(numThreads));\<close>
  \<^verbatim>\<open>slice = std::max(slice, IndexType(1));\<close>
\<close>

definition sliceOf :: "(int \<Rightarrow> nat \<Rightarrow> int) \<Rightarrow> int \<Rightarrow> int \<Rightarrow> nat \<Rightarrow> int" where
  "sliceOf stdround start endIdx numThreads =
     (let n = wrapIndex (endIdx - start + 1);
          slice = stdround n numThreads
      in max slice 1)"

text \<open>
  \<^verbatim>\<open>for (unsigned int i = 0; i + 1 < numThreads && i1 < end; ++i)\<close> with loop state
  \<open>(i, i1, i2, s)\<close>; the task \<^verbatim>\<open>func(i1, i2)\<close> runs when it is launched.
\<close>

function rangeLoop ::
  "int \<Rightarrow> int \<Rightarrow> nat \<Rightarrow> (int \<Rightarrow> int \<Rightarrow> 's \<Rightarrow> 's) \<Rightarrow> nat \<times> int \<times> int \<times> 's
     \<Rightarrow> nat \<times> int \<times> int \<times> 's" where
  "rangeLoop endIdx slice numThreads func (i, i1, i2, s) =
     (if i + 1 < numThreads \<and> i1 < endIdx
      then rangeLoop endIdx slice numThreads func
             (i + 1, i2, min (wrapIndex (i2 + slice)) endIdx, func i1 i2 s)
      else (i, i1, i2, s))"
  by pat_completeness auto
termination
  by (relation "measure (\<lambda>(endIdx, slice, numThreads, func, i, i1, i2, s). numThreads - i)")
     auto

declare rangeLoop.simps [simp del]

definition parallelRangeFor ::
  "(int \<Rightarrow> nat \<Rightarrow> int) \<Rightarrow> nat \<Rightarrow> int \<Rightarrow> int \<Rightarrow> (int \<Rightarrow> int \<Rightarrow> 's \<Rightarrow> 's) \<Rightarrow> ExecutionPolicy
     \<Rightarrow> 's \<Rightarrow> 's" where
  "parallelRangeFor stdround numThreadsHint start endIdx func policy s =
     (if start > endIdx then s
      else (let numThreads = numThreadsOf policy numThreadsHint;
                slice = sliceOf stdround start endIdx numThreads
            in case rangeLoop endIdx slice numThreads func
                      (0, start, min (wrapIndex (start + slice)) endIdx, s) of
                 (i, i1, i2, s') \<Rightarrow> if i1 < endIdx then func i1 endIdx s' else s'))"

text \<open>The sub-ranges \<^verbatim>\<open>func\<close> is called with, in call order.\<close>

definition parallelRangeFor_calls ::
  "(int \<Rightarrow> nat \<Rightarrow> int) \<Rightarrow> nat \<Rightarrow> int \<Rightarrow> int \<Rightarrow> ExecutionPolicy \<Rightarrow> (int \<times> int) list" where
  "parallelRangeFor_calls stdround numThreadsHint start endIdx policy =
     parallelRangeFor stdround numThreadsHint start endIdx (\<lambda>b e log. log @ [(b, e)]) policy []"

subsection \<open>\<^verbatim>\<open>parallelReduce\<close>\<close>

text \<open>
  The launch loop of \<^verbatim>\<open>parallelReduce\<close> with loop state \<open>(tid, i1, i2, results)\<close>;
  \<^verbatim>\<open>launchRange(i1, i2, tid)\<close> stores \<^verbatim>\<open>func(i1, i2, identity)\<close> in \<^verbatim>\<open>results[tid]\<close>.
\<close>

function reduceLoop ::
  "int \<Rightarrow> int \<Rightarrow> nat \<Rightarrow> 'v \<Rightarrow> (int \<Rightarrow> int \<Rightarrow> 'v \<Rightarrow> 'v) \<Rightarrow> nat \<times> int \<times> int \<times> 'v list
     \<Rightarrow> nat \<times> int \<times> int \<times> 'v list" where
  "reduceLoop endIdx slice numThreads identity func (tid, i1, i2, results) =
     (if tid + 1 < numThreads \<and> i1 < endIdx
      then reduceLoop endIdx slice numThreads identity func
             (tid + 1, i2, min (wrapIndex (i2 + slice)) endIdx,
              results[tid := func i1 i2 identity])
      else (tid, i1, i2, results))"
  by pat_completeness auto
termination
  by (relation
       "measure (\<lambda>(endIdx, slice, numThreads, identity, func, tid, i1, i2, r). numThreads - tid)")
     auto

declare reduceLoop.simps [simp del]

text \<open>
  The gather loop \<^verbatim>\<open>for (const Value& val : results) finalResult = reduce(val, finalResult);\<close>
  is \<open>fold reduce results identity\<close>.
\<close>

definition parallelReduce ::
  "(int \<Rightarrow> nat \<Rightarrow> int) \<Rightarrow> nat \<Rightarrow> int \<Rightarrow> int \<Rightarrow> 'v \<Rightarrow> (int \<Rightarrow> int \<Rightarrow> 'v \<Rightarrow> 'v) \<Rightarrow> ('v \<Rightarrow> 'v \<Rightarrow> 'v)
     \<Rightarrow> ExecutionPolicy \<Rightarrow> 'v" where
  "parallelReduce stdround numThreadsHint start endIdx identity func reduce policy =
     (if start > endIdx then identity
      else (let numThreads = numThreadsOf policy numThreadsHint;
                slice = sliceOf stdround start endIdx numThreads;
                results = replicate numThreads identity
            in case reduceLoop endIdx slice numThreads identity func
                      (0, start, min (wrapIndex (start + slice)) endIdx, results) of
                 (tid, i1, i2, results') \<Rightarrow>
                   (let results'' =
                          (if i1 < endIdx then results'[tid := func i1 endIdx identity]
                           else results')
                    in fold reduce results'' identity)))"

section \<open>Notions used by the statements\<close>

subsection \<open>Comparators and the contract of \<^verbatim>\<open>std::sort\<close>\<close>

text \<open>
  Two elements tie under a comparator when neither is strictly less than the other. A
  strict weak order is irreflexive and transitive, and its ties are transitive: the
  requirement the C++ standard puts on the comparator of \<^verbatim>\<open>std::sort\<close>.
\<close>

definition equiv_under :: "('a \<Rightarrow> 'a \<Rightarrow> bool) \<Rightarrow> 'a \<Rightarrow> 'a \<Rightarrow> bool" where
  "equiv_under c x y = (\<not> c x y \<and> \<not> c y x)"

definition strict_weak_order :: "('a \<Rightarrow> 'a \<Rightarrow> bool) \<Rightarrow> bool" where
  "strict_weak_order c =
     ((\<forall>x. \<not> c x x) \<and>
      (\<forall>x y z. c x y \<longrightarrow> c y z \<longrightarrow> c x z) \<and>
      (\<forall>x y z. equiv_under c x y \<longrightarrow> equiv_under c y z \<longrightarrow> equiv_under c x z))"

text \<open>Non-decreasing under \<open>c\<close>: no element is strictly less than one before it.\<close>

definition nondecreasing :: "('a \<Rightarrow> 'a \<Rightarrow> bool) \<Rightarrow> 'a list \<Rightarrow> bool" where
  "nondecreasing c xs = sorted_wrt (\<lambda>x y. \<not> c y x) xs"

text \<open>
  What the standard promises of \<^verbatim>\<open>std::sort(first, last, comp)\<close>: the range holds the same
  elements afterwards and is non-decreasing under \<^verbatim>\<open>comp\<close>. The order of tied elements is
  left open.
\<close>

definition std_sort_contract ::
  "(('a \<Rightarrow> 'a \<Rightarrow> bool) \<Rightarrow> 'a list \<Rightarrow> 'a list) \<Rightarrow> ('a \<Rightarrow> 'a \<Rightarrow> bool) \<Rightarrow> bool" where
  "std_sort_contract stdsort c =
     (\<forall>xs. mset (stdsort c xs) = mset xs \<and> nondecreasing c (stdsort c xs))"

text \<open>
  One implementation of the contract, used wherever a statement is evaluated on concrete
  data: straight insertion sort, which moves an element towards the front only past
  elements it is strictly less than. (libstdc++ runs exactly this on ranges of at most 16
  elements.)
\<close>

fun insertElem :: "('a \<Rightarrow> 'a \<Rightarrow> bool) \<Rightarrow> 'a \<Rightarrow> 'a list \<Rightarrow> 'a list" where
  "insertElem c v [] = [v]"
| "insertElem c v (x # xs) = (if c v x then v # x # xs else x # insertElem c v xs)"

definition insertionSort :: "('a \<Rightarrow> 'a \<Rightarrow> bool) \<Rightarrow> 'a list \<Rightarrow> 'a list" where
  "insertionSort c xs = foldl (\<lambda>sorted_part v. insertElem c v sorted_part) [] xs"

text \<open>A comparator with ties between different elements: pairs ordered by their key.\<close>

definition less_fst :: "nat \<times> nat \<Rightarrow> nat \<times> nat \<Rightarrow> bool" where
  "less_fst p q = (fst p < fst q)"

text \<open>No two different elements of \<open>xs\<close> tie.\<close>

definition no_ties :: "('a \<Rightarrow> 'a \<Rightarrow> bool) \<Rightarrow> 'a list \<Rightarrow> bool" where
  "no_ties c xs = (\<forall>x\<in>set xs. \<forall>y\<in>set xs. equiv_under c x y \<longrightarrow> x = y)"

subsection \<open>The merge as a function on lists\<close>

text \<open>
  What the loops of \<^verbatim>\<open>merge\<close> compute, read off lists: \<open>ls\<close> is the left half from \<open>i1\<close>
  on, \<open>rs\<close> the right half from \<open>i2\<close> on. The left element is taken when the comparator
  says it is strictly less, the right element otherwise.
\<close>

fun mergeLists :: "('a \<Rightarrow> 'a \<Rightarrow> bool) \<Rightarrow> 'a list \<Rightarrow> 'a list \<Rightarrow> 'a list" where
  "mergeLists c [] rs = rs"
| "mergeLists c (l # ls) [] = l # ls"
| "mergeLists c (l # ls) (r # rs) =
     (if c l r then l # mergeLists c ls (r # rs) else r # mergeLists c (l # ls) rs)"

text \<open>
  The postcondition of \<^verbatim>\<open>parallelMergeSort\<close> on the first \<open>sz\<close> cells at \<^verbatim>\<open>a\<close>; \<open>res\<close> is the
  pair of memories it returns.
\<close>

definition sort_post ::
  "('a \<Rightarrow> 'a \<Rightarrow> bool) \<Rightarrow> nat \<Rightarrow> nat \<Rightarrow> 'a list \<Rightarrow> 'a list \<Rightarrow> 'a list \<times> 'a list \<Rightarrow> bool" where
  "sort_post c numThreads sz a temp res =
     (length (fst res) = length a \<and> length (snd res) = length temp \<and>
      drop sz (fst res) = drop sz a \<and> drop sz (snd res) = drop sz temp \<and>
      mset (take sz (fst res)) = mset (take sz a) \<and>
      (1 \<le> numThreads \<longrightarrow> nondecreasing c (take sz (fst res))))"

subsection \<open>Partition plans\<close>

text \<open>
  \<open>chained b rs e\<close>: the sub-ranges \<open>rs\<close> are non-empty, the first begins at \<open>b\<close>, each
  begins where the one before ended, and the last ends at \<open>e\<close>.
\<close>

fun chained :: "int \<Rightarrow> (int \<times> int) list \<Rightarrow> int \<Rightarrow> bool" where
  "chained b [] e = (b = e)"
| "chained b ((l, r) # rs) e = (l = b \<and> l < r \<and> chained r rs e)"

text \<open>A map function for \<^verbatim>\<open>parallelReduce\<close>: the sum of the indices of a slice.\<close>

definition sumRange :: "int \<Rightarrow> int \<Rightarrow> int \<Rightarrow> int" where
  "sumRange k1 k2 init = fold (+) [k1..k2 - 1] init"


section \<open>The merge computes \<open>mergeLists\<close>\<close>

lemma upd_take_Suc: "k < length t \<Longrightarrow> take (Suc k) (t[k := v]) = take k t @ [v]"
  by (simp add: take_Suc_conv_app_nth)

lemma slice_Cons: "i < m \<Longrightarrow> m \<le> length a \<Longrightarrow> take (m - i) (drop i a) = a ! i # take (m - Suc i) (drop (Suc i) a)"
proof -
  assume h: "i < m" "m \<le> length a"
  then have "drop i a = a ! i # drop (Suc i) a" by (simp add: Cons_nth_drop_Suc)
  moreover from h have "m - i = Suc (m - Suc i)" by simp
  ultimately show ?thesis by simp
qed

lemma mergeLoop2_eq:
  "i1 \<le> sz div 2 \<Longrightarrow> sz div 2 \<le> length a \<Longrightarrow> tempi + (sz div 2 - i1) \<le> length temp \<Longrightarrow>
   mergeLoop2 a sz (i1, i2, tempi, temp) =
     (sz div 2, i2, tempi + (sz div 2 - i1),
      take tempi temp @ take (sz div 2 - i1) (drop i1 a) @ drop (tempi + (sz div 2 - i1)) temp)"
proof (induction a sz "(i1, i2, tempi, temp)" arbitrary: i1 i2 tempi temp rule: mergeLoop2.induct)
  case (1 a sz i1 i2 tempi temp)
  show ?case
  proof (cases "i1 < sz div 2")
    case True
    have lt: "tempi < length temp" using True "1.prems" by linarith
    have IH: "mergeLoop2 a sz (i1 + 1, i2, tempi + 1, temp[tempi := a ! i1]) =
       (sz div 2, i2, tempi + 1 + (sz div 2 - (i1 + 1)),
        take (tempi + 1) (temp[tempi := a ! i1]) @ take (sz div 2 - (i1 + 1)) (drop (i1 + 1) a) @
        drop (tempi + 1 + (sz div 2 - (i1 + 1))) (temp[tempi := a ! i1]))"
      using True "1.prems" by (intro "1.hyps") auto
    have e: "tempi + 1 + (sz div 2 - (i1 + 1)) = tempi + (sz div 2 - i1)" using True by simp
    show ?thesis
      using True lt "1.prems"
      apply (subst mergeLoop2.simps)
      apply (simp only: IH e if_True)
      apply (simp add: upd_take_Suc slice_Cons[of i1 "sz div 2" a])
      done
  next
    case False
    then have "i1 = sz div 2" using "1.prems" by simp
    then show ?thesis by (subst mergeLoop2.simps) simp
  qed
qed

lemma mergeLoop3_eq:
  "i2 \<le> sz \<Longrightarrow> sz \<le> length a \<Longrightarrow> tempi + (sz - i2) \<le> length temp \<Longrightarrow>
   mergeLoop3 a sz (i1, i2, tempi, temp) =
     (i1, sz, tempi + (sz - i2),
      take tempi temp @ take (sz - i2) (drop i2 a) @ drop (tempi + (sz - i2)) temp)"
proof (induction a sz "(i1, i2, tempi, temp)" arbitrary: i1 i2 tempi temp rule: mergeLoop3.induct)
  case (1 a sz i1 i2 tempi temp)
  show ?case
  proof (cases "i2 < sz")
    case True
    have lt: "tempi < length temp" using True "1.prems" by linarith
    have IH: "mergeLoop3 a sz (i1, i2 + 1, tempi + 1, temp[tempi := a ! i2]) =
       (i1, sz, tempi + 1 + (sz - (i2 + 1)),
        take (tempi + 1) (temp[tempi := a ! i2]) @ take (sz - (i2 + 1)) (drop (i2 + 1) a) @
        drop (tempi + 1 + (sz - (i2 + 1))) (temp[tempi := a ! i2]))"
      using True "1.prems" by (intro "1.hyps") auto
    have e: "tempi + 1 + (sz - (i2 + 1)) = tempi + (sz - i2)" using True by simp
    show ?thesis
      using True lt "1.prems"
      apply (subst mergeLoop3.simps)
      apply (simp only: IH e if_True)
      apply (simp add: upd_take_Suc slice_Cons[of i2 sz a])
      done
  next
    case False
    then have "i2 = sz" using "1.prems" by simp
    then show ?thesis by (subst mergeLoop3.simps) simp
  qed
qed

lemma mergeLists_Nil2 [simp]: "mergeLists c ls [] = ls"
  by (cases ls) simp_all

lemma length_mergeLists [simp]: "length (mergeLists c ls rs) = length ls + length rs"
  by (induction c ls rs rule: mergeLists.induct) simp_all

lemma mset_mergeLists [simp]: "mset (mergeLists c ls rs) = mset ls + mset rs"
  by (induction c ls rs rule: mergeLists.induct) simp_all

lemma mergeLoops_eq:
  "i1 \<le> sz div 2 \<Longrightarrow> sz div 2 \<le> i2 \<Longrightarrow> i2 \<le> sz \<Longrightarrow> sz \<le> length a \<Longrightarrow>
   tempi + (sz div 2 - i1) + (sz - i2) \<le> length temp \<Longrightarrow>
   mergeLoop3 a sz (mergeLoop2 a sz (mergeLoop1 c a sz (i1, i2, tempi, temp))) =
     (sz div 2, sz, tempi + (sz div 2 - i1) + (sz - i2),
      take tempi temp @
      mergeLists c (take (sz div 2 - i1) (drop i1 a)) (take (sz - i2) (drop i2 a)) @
      drop (tempi + (sz div 2 - i1) + (sz - i2)) temp)"
proof (induction c a sz "(i1, i2, tempi, temp)" arbitrary: i1 i2 tempi temp
       rule: mergeLoop1.induct)
  case (1 c a sz i1 i2 tempi temp)
  let ?h = "sz div 2"
  show ?case
  proof (cases "i1 < ?h \<and> i2 < sz")
    case True
    then have b1: "i1 < ?h" and b2: "i2 < sz" by simp_all
    have lt: "tempi < length temp" using True "1.prems" by linarith
    have hlen: "?h \<le> length a" using "1.prems" by linarith
    have L: "take (?h - i1) (drop i1 a) = a ! i1 # take (?h - Suc i1) (drop (Suc i1) a)"
      using b1 hlen by (rule slice_Cons)
    have R: "take (sz - i2) (drop i2 a) = a ! i2 # take (sz - Suc i2) (drop (Suc i2) a)"
      using b2 "1.prems"(4) by (rule slice_Cons)
    show ?thesis
    proof (cases "c (a ! i1) (a ! i2)")
      case c: True
      have IH: "mergeLoop3 a sz (mergeLoop2 a sz
                  (mergeLoop1 c a sz (i1 + 1, i2, tempi + 1, temp[tempi := a ! i1]))) =
         (?h, sz, tempi + 1 + (?h - (i1 + 1)) + (sz - i2),
          take (tempi + 1) (temp[tempi := a ! i1]) @
          mergeLists c (take (?h - (i1 + 1)) (drop (i1 + 1) a)) (take (sz - i2) (drop i2 a)) @
          drop (tempi + 1 + (?h - (i1 + 1)) + (sz - i2)) (temp[tempi := a ! i1]))"
        using True c "1.prems" by (intro "1.hyps"(1)) auto
      have e: "tempi + 1 + (?h - (i1 + 1)) + (sz - i2) = tempi + (?h - i1) + (sz - i2)"
        using b1 by simp
      have step: "mergeLoop1 c a sz (i1, i2, tempi, temp) =
                  mergeLoop1 c a sz (i1 + 1, i2, tempi + 1, temp[tempi := a ! i1])"
        using True c by (subst mergeLoop1.simps) simp
      show ?thesis
        unfolding step IH e
        using lt b1 b2 c by (simp add: upd_take_Suc L R)
    next
      case c: False
      have IH: "mergeLoop3 a sz (mergeLoop2 a sz
                  (mergeLoop1 c a sz (i1, i2 + 1, tempi + 1, temp[tempi := a ! i2]))) =
         (?h, sz, tempi + 1 + (?h - i1) + (sz - (i2 + 1)),
          take (tempi + 1) (temp[tempi := a ! i2]) @
          mergeLists c (take (?h - i1) (drop i1 a)) (take (sz - (i2 + 1)) (drop (i2 + 1) a)) @
          drop (tempi + 1 + (?h - i1) + (sz - (i2 + 1))) (temp[tempi := a ! i2]))"
        using True c "1.prems" by (intro "1.hyps"(2)) auto
      have e: "tempi + 1 + (?h - i1) + (sz - (i2 + 1)) = tempi + (?h - i1) + (sz - i2)"
        using b2 by simp
      have step: "mergeLoop1 c a sz (i1, i2, tempi, temp) =
                  mergeLoop1 c a sz (i1, i2 + 1, tempi + 1, temp[tempi := a ! i2])"
        using True c by (subst mergeLoop1.simps) simp
      show ?thesis
        unfolding step IH e
        using lt b1 b2 c by (simp add: upd_take_Suc L R)
    qed
  next
    case False
    have stop: "mergeLoop1 c a sz (i1, i2, tempi, temp) = (i1, i2, tempi, temp)"
      using False by (subst mergeLoop1.simps) auto
    have hlen: "?h \<le> length a" using "1.prems" by linarith
    show ?thesis
    proof (cases "i1 < ?h")
      case True
      then have i2: "i2 = sz" using False "1.prems" by simp
      have l2: "mergeLoop2 a sz (i1, i2, tempi, temp) =
         (?h, i2, tempi + (?h - i1),
          take tempi temp @ take (?h - i1) (drop i1 a) @ drop (tempi + (?h - i1)) temp)"
        using "1.prems" hlen by (intro mergeLoop2_eq) auto
      show ?thesis
        unfolding stop l2 using i2 by (subst mergeLoop3.simps) simp
    next
      case F: False
      then have i1: "i1 = ?h" using "1.prems" by simp
      have l2: "mergeLoop2 a sz (i1, i2, tempi, temp) = (i1, i2, tempi, temp)"
        using F by (subst mergeLoop2.simps) simp
      have l3: "mergeLoop3 a sz (i1, i2, tempi, temp) =
         (i1, sz, tempi + (sz - i2),
          take tempi temp @ take (sz - i2) (drop i2 a) @ drop (tempi + (sz - i2)) temp)"
        using "1.prems" i1 by (intro mergeLoop3_eq) auto
      show ?thesis
        unfolding stop l2 l3 using i1 by simp
    qed
  qed
qed

lemma forLoop_copy:
  "0 \<le> i \<Longrightarrow> i \<le> int sz \<Longrightarrow> sz \<le> length a \<Longrightarrow> sz \<le> length t \<Longrightarrow>
   forLoop i (int sz) (\<lambda>j a'. a'[nat j := t ! nat j]) a =
     take (nat i) a @ take (sz - nat i) (drop (nat i) t) @ drop sz a"
proof (induction i "int sz" "\<lambda>j (a' :: 'a list). a'[nat j := t ! nat j]" a rule: forLoop.induct)
  case (1 i a)
  show ?case
  proof (cases "i < int sz")
    case True
    have n: "nat (i + 1) = Suc (nat i)" using "1.prems" by simp
    have lt: "nat i < length a" "nat i < sz" "sz \<le> length t" using True "1.prems" by auto
    have IH: "forLoop (i + 1) (int sz) (\<lambda>j a'. a'[nat j := t ! nat j]) (a[nat i := t ! nat i]) =
        take (nat (i + 1)) (a[nat i := t ! nat i]) @ take (sz - nat (i + 1)) (drop (nat (i + 1)) t) @
        drop sz (a[nat i := t ! nat i])"
      using True "1.prems" by (intro "1.hyps") auto
    show ?thesis
      using True lt
      apply (subst forLoop.simps)
      apply (simp only: IH if_True n)
      apply (simp add: upd_take_Suc slice_Cons[of "nat i" sz t])
      done
  next
    case False
    then have "nat i = sz" using "1.prems" by simp
    then show ?thesis using False "1.prems" by (subst forLoop.simps) simp
  qed
qed

lemma merge_eq:
  assumes "sz \<le> length a" and "sz \<le> length temp"
  shows "merge a sz temp c =
     (mergeLists c (take (sz div 2) a) (take (sz - sz div 2) (drop (sz div 2) a)) @ drop sz a,
      mergeLists c (take (sz div 2) a) (take (sz - sz div 2) (drop (sz div 2) a)) @ drop sz temp)"
proof -
  define M where "M = mergeLists c (take (sz div 2) a) (take (sz - sz div 2) (drop (sz div 2) a))"
  have len: "length M = sz" using assms unfolding M_def by simp
  have "mergeLoop3 a sz (mergeLoop2 a sz (mergeLoop1 c a sz (0, sz div 2, 0, temp))) =
     (sz div 2, sz, 0 + (sz div 2 - 0) + (sz - sz div 2),
      take 0 temp @
      mergeLists c (take (sz div 2 - 0) (drop 0 a)) (take (sz - sz div 2) (drop (sz div 2) a)) @
      drop (0 + (sz div 2 - 0) + (sz - sz div 2)) temp)"
    using assms by (intro mergeLoops_eq) auto
  then have loops: "mergeLoop3 a sz (mergeLoop2 a sz (mergeLoop1 c a sz (0, sz div 2, 0, temp))) =
     (sz div 2, sz, sz, M @ drop sz temp)"
    unfolding M_def by simp
  have "forLoop 0 (int sz) (\<lambda>j a'. a'[nat j := (M @ drop sz temp) ! nat j]) a =
       take (nat 0) a @ take (sz - nat 0) (drop (nat 0) (M @ drop sz temp)) @ drop sz a"
    using assms len by (intro forLoop_copy) auto
  then have cp: "forLoop 0 (int sz) (\<lambda>j a'. a'[nat j := (M @ drop sz temp) ! nat j]) a =
       M @ drop sz a"
    using len by simp
  have "merge a sz temp c = (M @ drop sz a, M @ drop sz temp)"
    unfolding merge_def loops by (simp add: parallelFor_def cp)
  then show ?thesis unfolding M_def .
qed

section \<open>Merging sorted halves\<close>

lemma swo_irrefl: "strict_weak_order c \<Longrightarrow> \<not> c x x"
  by (simp add: strict_weak_order_def)

lemma swo_trans: "strict_weak_order c \<Longrightarrow> c x y \<Longrightarrow> c y z \<Longrightarrow> c x z"
  unfolding strict_weak_order_def by blast

lemma swo_asym: "strict_weak_order c \<Longrightarrow> c x y \<Longrightarrow> \<not> c y x"
  using swo_irrefl swo_trans by metis

lemma swo_negtrans:
  assumes "strict_weak_order c" and "\<not> c x y" and "\<not> c y z"
  shows "\<not> c x z"
proof
  assume xz: "c x z"
  have "\<not> c y x" using assms(1,3) xz swo_trans by metis
  then have e1: "equiv_under c x y" using assms(2) by (simp add: equiv_under_def)
  have "\<not> c z y" using assms(1,2) xz swo_trans by metis
  then have e2: "equiv_under c y z" using assms(3) by (simp add: equiv_under_def)
  have "equiv_under c x z" using assms(1) e1 e2 unfolding strict_weak_order_def by blast
  then show False using xz by (simp add: equiv_under_def)
qed

lemma set_mergeLists [simp]: "set (mergeLists c ls rs) = set ls \<union> set rs"
  by (induction c ls rs rule: mergeLists.induct) auto

lemma nondecreasing_Cons:
  "nondecreasing c (x # xs) = ((\<forall>y\<in>set xs. \<not> c y x) \<and> nondecreasing c xs)"
  by (simp add: nondecreasing_def)

lemma nondecreasing_mergeLists:
  "strict_weak_order c \<Longrightarrow> nondecreasing c ls \<Longrightarrow> nondecreasing c rs \<Longrightarrow>
   nondecreasing c (mergeLists c ls rs)"
proof (induction c ls rs rule: mergeLists.induct)
  case (1 c rs)
  then show ?case by simp
next
  case (2 c l ls)
  then show ?case by simp
next
  case (3 c l ls r rs)
  note swo = "3.prems"(1)
  show ?case
  proof (cases "c l r")
    case True
    have tl: "nondecreasing c (mergeLists c ls (r # rs))"
      using 3 True by (simp add: nondecreasing_Cons)
    have "\<not> c y l" if "y \<in> set ls \<union> set (r # rs)" for y
    proof (cases "y \<in> set ls")
      case True
      then show ?thesis using "3.prems"(2) by (simp add: nondecreasing_Cons)
    next
      case False
      then have "y = r \<or> y \<in> set rs" using that by auto
      then have "\<not> c y r"
        using "3.prems"(3) swo_irrefl[OF swo] by (auto simp: nondecreasing_Cons)
      then show ?thesis using True swo_trans[OF swo] by blast
    qed
    then show ?thesis using True tl by (simp add: nondecreasing_Cons)
  next
    case False
    have tl: "nondecreasing c (mergeLists c (l # ls) rs)"
      using 3 False by (simp add: nondecreasing_Cons)
    have "\<not> c y r" if "y \<in> set (l # ls) \<union> set rs" for y
    proof (cases "y \<in> set rs")
      case True
      then show ?thesis using "3.prems"(3) by (simp add: nondecreasing_Cons)
    next
      case F: False
      then have "y = l \<or> y \<in> set ls" using that by auto
      then have "\<not> c y l"
        using "3.prems"(2) swo_irrefl[OF swo] by (auto simp: nondecreasing_Cons)
      then show ?thesis using False swo_negtrans[OF swo] by blast
    qed
    then show ?thesis using False tl by (simp add: nondecreasing_Cons)
  qed
qed

section \<open>The postcondition of \<^verbatim>\<open>parallelMergeSort\<close>\<close>

lemma contract_length:
  "std_sort_contract stdsort c \<Longrightarrow> length (stdsort c xs) = length xs"
  unfolding std_sort_contract_def by (metis size_mset)

lemma sort_post_base:
  assumes "std_sort_contract stdsort c" and "sz \<le> length a"
  shows "sort_post c 1 sz a temp (stdsort c (take sz a) @ drop sz a, temp)"
proof -
  have l: "length (stdsort c (take sz a)) = sz"
    using assms by (simp add: contract_length)
  show ?thesis
    using assms l unfolding sort_post_def std_sort_contract_def by simp
qed

lemma sort_post_merge:
  assumes swo: "strict_weak_order c"
    and sz: "sz \<le> length a" "sz \<le> length temp"
    and L: "sort_post c nL (sz div 2) a temp (aL, tempL)" "1 \<le> nL"
    and R: "sort_post c nR (sz - sz div 2) (drop (sz div 2) aL) (drop (sz div 2) tempL) (aR, tempR)"
           "1 \<le> nR"
  shows "sort_post c n sz a temp
           (merge (take (sz div 2) aL @ aR) sz (take (sz div 2) tempL @ tempR) c)"
proof -
  let ?h = "sz div 2"
  define a2 where "a2 = take ?h aL @ aR"
  define t2 where "t2 = take ?h tempL @ tempR"
  have hle: "?h \<le> sz" by simp
  from L have lenL: "length aL = length a" "length tempL = length temp"
    and dropL: "drop ?h aL = drop ?h a" "drop ?h tempL = drop ?h temp"
    and msL: "mset (take ?h aL) = mset (take ?h a)"
    and sortedL: "nondecreasing c (take ?h aL)"
    by (simp_all add: sort_post_def)
  from R have lenR: "length aR = length a - ?h" "length tempR = length temp - ?h"
    and dropR: "drop (sz - ?h) aR = drop (sz - ?h) (drop ?h aL)"
               "drop (sz - ?h) tempR = drop (sz - ?h) (drop ?h tempL)"
    and msR: "mset (take (sz - ?h) aR) = mset (take (sz - ?h) (drop ?h aL))"
    and sortedR: "nondecreasing c (take (sz - ?h) aR)"
    using lenL by (simp_all add: sort_post_def)
  have len2: "length a2 = length a" "length t2 = length temp"
    using lenL lenR sz by (simp_all add: a2_def t2_def)
  have tk: "take ?h a2 = take ?h aL" using lenL sz by (simp add: a2_def)
  have dr: "drop ?h a2 = aR" using lenL sz by (simp add: a2_def)
  have drt: "drop ?h t2 = tempR" using lenL sz by (simp add: t2_def)
  define M where "M = mergeLists c (take ?h aL) (take (sz - ?h) aR)"
  have lenM: "length M = sz" using lenL lenR sz by (simp add: M_def)
  have mg: "merge a2 sz t2 c = (M @ drop sz a2, M @ drop sz t2)"
    using merge_eq[of sz a2 t2 c] sz len2 by (simp add: tk dr M_def)
  have szsplit: "sz = ?h + (sz - ?h)" by simp
  have d2: "drop sz a2 = drop sz a"
  proof -
    have "drop sz a2 = drop (sz - ?h) (drop ?h a2)" by simp
    also have "\<dots> = drop (sz - ?h) (drop ?h a)" using dr dropR(1) dropL(1) by simp
    finally show ?thesis by simp
  qed
  have d2t: "drop sz t2 = drop sz temp"
  proof -
    have "drop sz t2 = drop (sz - ?h) (drop ?h t2)" by simp
    also have "\<dots> = drop (sz - ?h) (drop ?h temp)" using drt dropR(2) dropL(2) by simp
    finally show ?thesis by simp
  qed
  have ms: "mset M = mset (take sz a)"
  proof -
    have "take sz a = take ?h a @ take (sz - ?h) (drop ?h a)"
      using take_add[of ?h "sz - ?h" a] by simp
    then show ?thesis using msL msR dropL(1) by (simp add: M_def)
  qed
  have so: "nondecreasing c M"
    unfolding M_def using swo sortedL sortedR by (rule nondecreasing_mergeLists)
  show ?thesis
    unfolding a2_def[symmetric] t2_def[symmetric] mg sort_post_def
    using lenM len2 d2 d2t ms so sz by simp
qed

lemma parallelMergeSort_post:
  "strict_weak_order c \<Longrightarrow> std_sort_contract stdsort c \<Longrightarrow> sz \<le> length a \<Longrightarrow>
   sz \<le> length temp \<Longrightarrow>
   sort_post c numThreads sz a temp (parallelMergeSort stdsort a sz temp numThreads c)"
proof (induction stdsort a sz temp numThreads c rule: parallelMergeSort.induct)
  case (1 stdsort a sz temp numThreads c)
  show ?case
  proof (cases "numThreads = 1")
    case True
    then show ?thesis
      using sort_post_base[OF "1.prems"(2,3)]
      by (subst parallelMergeSort.simps) simp
  next
    case ne1: False
    show ?thesis
    proof (cases "1 < numThreads")
      case True
      obtain aL tempL where eL:
        "parallelMergeSort stdsort a (sz div 2) temp (numThreads div 2) c = (aL, tempL)"
        by (cases "parallelMergeSort stdsort a (sz div 2) temp (numThreads div 2) c")
      obtain aR tempR where eR:
        "parallelMergeSort stdsort (drop (sz div 2) aL) (sz - sz div 2) (drop (sz div 2) tempL)
           (numThreads - numThreads div 2) c = (aR, tempR)"
        by (cases "parallelMergeSort stdsort (drop (sz div 2) aL) (sz - sz div 2)
                     (drop (sz div 2) tempL) (numThreads - numThreads div 2) c")
      have nL: "1 \<le> numThreads div 2" and nR: "1 \<le> numThreads - numThreads div 2"
        using True by simp_all
      have pL: "sort_post c (numThreads div 2) (sz div 2) a temp (aL, tempL)"
        using "1.IH"(1)[OF ne1 True "1.prems"(1,2)] "1.prems"(3,4) eL by simp
      then have lens: "length aL = length a" "length tempL = length temp"
        by (simp_all add: sort_post_def)
      have pR: "sort_post c (numThreads - numThreads div 2) (sz - sz div 2)
                  (drop (sz div 2) aL) (drop (sz div 2) tempL) (aR, tempR)"
        using "1.IH"(2)[OF ne1 True eL[symmetric] "1.prems"(1,2)] "1.prems"(3,4) lens eR
        by simp
      have "sort_post c numThreads sz a temp
              (merge (take (sz div 2) aL @ aR) sz (take (sz div 2) tempL @ tempR) c)"
        using "1.prems"(1,3,4) pL nL pR nR by (rule sort_post_merge)
      then show ?thesis
        using ne1 True eL eR by (subst parallelMergeSort.simps) simp
    next
      case False
      then have "numThreads = 0" using ne1 by simp
      then show ?thesis
        by (subst parallelMergeSort.simps) (simp add: sort_post_def)
    qed
  qed
qed

section \<open>Insertion sort meets the contract of \<^verbatim>\<open>std::sort\<close>\<close>

lemma mset_insertElem [simp]: "mset (insertElem c v xs) = add_mset v (mset xs)"
  by (induction xs) simp_all

lemma set_insertElem [simp]: "set (insertElem c v xs) = insert v (set xs)"
  by (induction xs) auto

lemma nondecreasing_insertElem:
  assumes swo: "strict_weak_order c"
  shows "nondecreasing c xs \<Longrightarrow> nondecreasing c (insertElem c v xs)"
proof (induction xs)
  case Nil
  then show ?case by (simp add: nondecreasing_def)
next
  case (Cons x xs)
  show ?case
  proof (cases "c v x")
    case True
    have "\<not> c y v" if "y \<in> set (x # xs)" for y
    proof -
      have "\<not> c y x" using that Cons.prems swo_irrefl[OF swo] by (auto simp: nondecreasing_Cons)
      then show ?thesis using True swo_trans[OF swo] by blast
    qed
    then show ?thesis using True Cons.prems by (simp add: nondecreasing_Cons)
  next
    case False
    then show ?thesis using Cons by (auto simp: nondecreasing_Cons)
  qed
qed

lemma insertion_fold_post:
  "strict_weak_order c \<Longrightarrow> nondecreasing c acc \<Longrightarrow>
   mset (foldl (\<lambda>sorted_part v. insertElem c v sorted_part) acc xs) = mset acc + mset xs \<and>
   nondecreasing c (foldl (\<lambda>sorted_part v. insertElem c v sorted_part) acc xs)"
  by (induction xs arbitrary: acc) (simp_all add: nondecreasing_insertElem)

lemma insertionSort_contract:
  "strict_weak_order c \<Longrightarrow> std_sort_contract insertionSort c"
  unfolding std_sort_contract_def insertionSort_def
  using insertion_fold_post[of c "[]"] by (simp add: nondecreasing_def)

lemma swo_less_nat: "strict_weak_order ((<) :: nat \<Rightarrow> nat \<Rightarrow> bool)"
  by (auto simp: strict_weak_order_def equiv_under_def)

lemma swo_less_fst: "strict_weak_order less_fst"
  by (auto simp: strict_weak_order_def equiv_under_def less_fst_def)

section \<open>\<^verbatim>\<open>parallelSort\<close> sorts\<close>

lemma sorted_perm_unique:
  "strict_weak_order c \<Longrightarrow> no_ties c xs \<Longrightarrow> mset xs = mset ys \<Longrightarrow>
   nondecreasing c xs \<Longrightarrow> nondecreasing c ys \<Longrightarrow> xs = ys"
proof (induction xs arbitrary: ys)
  case Nil
  then show ?case by simp
next
  case (Cons x xs)
  then obtain y ys' where ys: "ys = y # ys'" by (cases ys) auto
  have sets: "set (x # xs) = set (y # ys')" using Cons.prems(3) ys by (metis mset_eq_setD)
  have "\<not> c y x"
  proof (cases "y = x")
    case True then show ?thesis using swo_irrefl[OF Cons.prems(1)] by simp
  next
    case False
    then have "y \<in> set xs" using sets by auto
    then show ?thesis using Cons.prems(4) by (simp add: nondecreasing_Cons)
  qed
  moreover have "\<not> c x y"
  proof (cases "y = x")
    case True then show ?thesis using swo_irrefl[OF Cons.prems(1)] by simp
  next
    case False
    then have "x \<in> set ys'" using sets by auto
    then show ?thesis using Cons.prems(5) ys by (simp add: nondecreasing_Cons)
  qed
  ultimately have "equiv_under c x y" by (simp add: equiv_under_def)
  moreover have "x \<in> set (x # xs)" "y \<in> set (x # xs)" using sets by auto
  ultimately have xy: "x = y" using Cons.prems(2) unfolding no_ties_def by blast
  have "xs = ys'"
  proof (rule Cons.IH)
    show "strict_weak_order c" by fact
    show "no_ties c xs" using Cons.prems(2) by (auto simp: no_ties_def)
    show "mset xs = mset ys'" using Cons.prems(3) ys xy by simp
    show "nondecreasing c xs" using Cons.prems(4) by (simp add: nondecreasing_Cons)
    show "nondecreasing c ys'" using Cons.prems(5) ys by (simp add: nondecreasing_Cons)
  qed
  then show ?case using xy ys by simp
qed

lemma parallelSort_post:
  assumes "strict_weak_order c" and "std_sort_contract stdsort c"
    and "beginIt \<le> endIt" and "endIt \<le> length mem"
  shows "length (parallelSort stdsort numThreadsHint vinit mem beginIt endIt c policy) = length mem"
    and "take beginIt (parallelSort stdsort numThreadsHint vinit mem beginIt endIt c policy) =
         take beginIt mem"
    and "drop endIt (parallelSort stdsort numThreadsHint vinit mem beginIt endIt c policy) =
         drop endIt mem"
    and "mset (take (endIt - beginIt)
                (drop beginIt (parallelSort stdsort numThreadsHint vinit mem beginIt endIt c policy))) =
         mset (take (endIt - beginIt) (drop beginIt mem))"
    and "nondecreasing c (take (endIt - beginIt)
           (drop beginIt (parallelSort stdsort numThreadsHint vinit mem beginIt endIt c policy)))"
proof -
  define sz where "sz = endIt - beginIt"
  define n where "n = numThreadsOf policy numThreadsHint"
  define res where
    "res = parallelMergeSort stdsort (drop beginIt mem) sz (replicate sz vinit) n c"
  have n1: "1 \<le> n" by (simp add: n_def numThreadsOf_def)
  have b: "sz \<le> length (drop beginIt mem)" "sz \<le> length (replicate sz vinit)"
    using assms(3,4) by (simp_all add: sz_def)
  have post: "sort_post c n sz (drop beginIt mem) (replicate sz vinit) res"
    unfolding res_def using assms(1,2) b by (rule parallelMergeSort_post)
  have out: "parallelSort stdsort numThreadsHint vinit mem beginIt endIt c policy =
             take beginIt mem @ fst res"
    using assms(3) by (simp add: parallelSort_def Let_def res_def sz_def n_def)
  have len: "length (fst res) = length mem - beginIt"
    using post by (simp add: sort_post_def)
  have lb: "length (take beginIt mem) = beginIt" using assms(3,4) by simp
  show "length (parallelSort stdsort numThreadsHint vinit mem beginIt endIt c policy) = length mem"
    unfolding out using len assms(3,4) by simp
  show "take beginIt (parallelSort stdsort numThreadsHint vinit mem beginIt endIt c policy) =
         take beginIt mem"
    unfolding out using lb by simp
  have dr: "drop beginIt (take beginIt mem @ fst res) = fst res" using lb by simp
  have "drop endIt (take beginIt mem @ fst res) = drop sz (fst res)"
    using lb assms(3) by (simp add: sz_def)
  also have "\<dots> = drop sz (drop beginIt mem)" using post by (simp add: sort_post_def)
  also have "\<dots> = drop endIt mem" using assms(3) by (simp add: sz_def)
  finally show "drop endIt (parallelSort stdsort numThreadsHint vinit mem beginIt endIt c policy) =
         drop endIt mem"
    unfolding out .
  show "mset (take (endIt - beginIt)
                (drop beginIt (parallelSort stdsort numThreadsHint vinit mem beginIt endIt c policy))) =
         mset (take (endIt - beginIt) (drop beginIt mem))"
    unfolding out dr sz_def[symmetric] using post by (simp add: sort_post_def)
  show "nondecreasing c (take (endIt - beginIt)
           (drop beginIt (parallelSort stdsort numThreadsHint vinit mem beginIt endIt c policy)))"
    unfolding out dr sz_def[symmetric] using post n1 by (simp add: sort_post_def)
qed

text \<open>
  Claim C1. For every buffer, every valid iterator pair \<open>beginIt \<le> endIt\<close> into it, every
  comparator that is a strict weak order and both execution policies (with any thread
  hint), \<^verbatim>\<open>parallelSort\<close> returns (the embedding is a total function), and afterwards the
  range \<^verbatim>\<open>[begin, end)\<close> holds a permutation of what it held before that is non-decreasing
  under the comparator; the buffer outside the range is as it was. \<^verbatim>\<open>std::sort\<close> enters
  through its contract only.
\<close>
theorem parallelSort_sorted_permutation:
  assumes "strict_weak_order c" and "std_sort_contract stdsort c"
    and "beginIt \<le> endIt" and "endIt \<le> length mem"
  shows "length (parallelSort stdsort numThreadsHint vinit mem beginIt endIt c policy) = length mem \<and>
         take beginIt (parallelSort stdsort numThreadsHint vinit mem beginIt endIt c policy) =
           take beginIt mem \<and>
         drop endIt (parallelSort stdsort numThreadsHint vinit mem beginIt endIt c policy) =
           drop endIt mem \<and>
         mset (take (endIt - beginIt)
                (drop beginIt (parallelSort stdsort numThreadsHint vinit mem beginIt endIt c policy))) =
           mset (take (endIt - beginIt) (drop beginIt mem)) \<and>
         nondecreasing c (take (endIt - beginIt)
           (drop beginIt (parallelSort stdsort numThreadsHint vinit mem beginIt endIt c policy)))"
  using parallelSort_post[OF assms] by blast

theorem parallelSort_sorted_permutation_witness:
  "strict_weak_order ((<) :: nat \<Rightarrow> nat \<Rightarrow> bool) \<and>
   std_sort_contract insertionSort ((<) :: nat \<Rightarrow> nat \<Rightarrow> bool) \<and>
   (0 :: nat) \<le> 5 \<and> 5 \<le> length [5, 3, 1, 4, 2 :: nat] \<and>
   parallelSort insertionSort 4 0 [5, 3, 1, 4, 2 :: nat] 0 5 (<) kParallel = [1, 2, 3, 4, 5] \<and>
   mset (take (5 - 0) (drop 0 (parallelSort insertionSort 4 0 [5, 3, 1, 4, 2 :: nat] 0 5 (<) kParallel))) =
     mset (take (5 - 0) (drop 0 [5, 3, 1, 4, 2 :: nat])) \<and>
   nondecreasing (<) (take (5 - 0)
     (drop 0 (parallelSort insertionSort 4 0 [5, 3, 1, 4, 2 :: nat] 0 5 (<) kParallel)))"
proof -
  have h1: "strict_weak_order ((<) :: nat \<Rightarrow> nat \<Rightarrow> bool)" by (rule swo_less_nat)
  have h2: "std_sort_contract insertionSort ((<) :: nat \<Rightarrow> nat \<Rightarrow> bool)"
    using h1 by (rule insertionSort_contract)
  have h3: "(0 :: nat) \<le> 5" by simp
  have h4: "5 \<le> length [5, 3, 1, 4, 2 :: nat]" by simp
  have ev: "parallelSort insertionSort 4 0 [5, 3, 1, 4, 2 :: nat] 0 5 (<) kParallel = [1, 2, 3, 4, 5]"
    by code_simp
  show ?thesis
    using parallelSort_sorted_permutation[OF h1 h2 h3 h4, of 4 0 kParallel] h1 h2 ev
    by simp
qed

section \<open>Serial against parallel\<close>

lemma three_parts: "b \<le> e \<Longrightarrow> xs = take b xs @ take (e - b) (drop b xs) @ drop e xs"
proof -
  assume "b \<le> e"
  then have "drop e xs = drop (e - b) (drop b xs)" by simp
  then show ?thesis by (metis append_take_drop_id)
qed

text \<open>
  Claim C5, as amended. The two policies give the same output whenever the comparator is a
  strict weak order under which no two different elements of the range tie: the sorted
  arrangement is then unique. (With ties the outputs can differ: the serial run is one
  \<^verbatim>\<open>std::sort\<close>, the parallel run merges, and the merge puts the right half first on a
  tie.)
\<close>

theorem parallelSort_policies_agree:
  assumes "strict_weak_order c" and "std_sort_contract stdsort c"
    and "beginIt \<le> endIt" and "endIt \<le> length mem"
    and "no_ties c (take (endIt - beginIt) (drop beginIt mem))"
  shows "parallelSort stdsort numThreadsHint vinit mem beginIt endIt c kSerial =
         parallelSort stdsort numThreadsHint vinit mem beginIt endIt c kParallel"
proof -
  define o1 where "o1 = parallelSort stdsort numThreadsHint vinit mem beginIt endIt c kSerial"
  define o2 where "o2 = parallelSort stdsort numThreadsHint vinit mem beginIt endIt c kParallel"
  define m1 where "m1 = take (endIt - beginIt) (drop beginIt o1)"
  define m2 where "m2 = take (endIt - beginIt) (drop beginIt o2)"
  note p1 = parallelSort_post[OF assms(1-4), of numThreadsHint vinit kSerial, folded o1_def m1_def]
  note p2 = parallelSort_post[OF assms(1-4), of numThreadsHint vinit kParallel, folded o2_def m2_def]
  have ms: "mset m1 = mset m2" using p1(4) p2(4) by simp
  have "set m1 = set (take (endIt - beginIt) (drop beginIt mem))"
    using p1(4) by (metis mset_eq_setD)
  then have nt: "no_ties c m1" using assms(5) by (simp add: no_ties_def)
  have mid: "m1 = m2"
    using assms(1) nt ms p1(5) p2(5) by (rule sorted_perm_unique)
  have "o1 = take beginIt o1 @ m1 @ drop endIt o1"
    unfolding m1_def using assms(3) by (rule three_parts)
  moreover have "o2 = take beginIt o2 @ m2 @ drop endIt o2"
    unfolding m2_def using assms(3) by (rule three_parts)
  ultimately have "o1 = o2" using p1(2,3) p2(2,3) mid by simp
  then show ?thesis unfolding o1_def o2_def .
qed

lemma no_ties_less_nat: "no_ties ((<) :: nat \<Rightarrow> nat \<Rightarrow> bool) xs"
  by (auto simp: no_ties_def equiv_under_def)

theorem parallelSort_policies_agree_witness:
  "strict_weak_order ((<) :: nat \<Rightarrow> nat \<Rightarrow> bool) \<and>
   std_sort_contract insertionSort ((<) :: nat \<Rightarrow> nat \<Rightarrow> bool) \<and>
   (1 :: nat) \<le> 5 \<and> 5 \<le> length [9, 3, 1, 4, 2, 7 :: nat] \<and>
   no_ties (<) (take (5 - 1) (drop 1 [9, 3, 1, 4, 2, 7 :: nat])) \<and>
   parallelSort insertionSort 3 0 [9, 3, 1, 4, 2, 7 :: nat] 1 5 (<) kSerial =
   parallelSort insertionSort 3 0 [9, 3, 1, 4, 2, 7 :: nat] 1 5 (<) kParallel \<and>
   parallelSort insertionSort 3 0 [9, 3, 1, 4, 2, 7 :: nat] 1 5 (<) kParallel = [9, 1, 2, 3, 4, 7]"
proof -
  have h1: "strict_weak_order ((<) :: nat \<Rightarrow> nat \<Rightarrow> bool)" by (rule swo_less_nat)
  have h2: "std_sort_contract insertionSort ((<) :: nat \<Rightarrow> nat \<Rightarrow> bool)"
    using h1 by (rule insertionSort_contract)
  have h3: "(1 :: nat) \<le> 5" by simp
  have h4: "5 \<le> length [9, 3, 1, 4, 2, 7 :: nat]" by simp
  have h5: "no_ties (<) (take (5 - 1) (drop 1 [9, 3, 1, 4, 2, 7 :: nat]))"
    by (rule no_ties_less_nat)
  have ev: "parallelSort insertionSort 3 0 [9, 3, 1, 4, 2, 7 :: nat] 1 5 (<) kParallel =
            [9, 1, 2, 3, 4, 7]"
    by code_simp
  show ?thesis
    using parallelSort_policies_agree[OF h1 h2 h3 h4 h5, of 3 0] h1 h2 h5 ev by simp
qed

text \<open>
  Two elements with the same key: \<^verbatim>\<open>kSerial\<close> leaves them in place, \<^verbatim>\<open>kParallel\<close> with two
  workers swaps them.
\<close>

theorem parallelSort_policies_counterexample:
  "strict_weak_order less_fst \<and> std_sort_contract insertionSort less_fst \<and>
   parallelSort insertionSort 2 (0, 0) [(1, 0), (1, 1)] 0 2 less_fst kSerial = [(1, 0), (1, 1)] \<and>
   parallelSort insertionSort 2 (0, 0) [(1, 0), (1, 1)] 0 2 less_fst kParallel = [(1, 1), (1, 0)]"
proof -
  have "parallelSort insertionSort 2 (0, 0) [(1, 0), (1, 1)] 0 2 less_fst kSerial =
          [(1, 0), (1, 1)]"
    by code_simp
  moreover have "parallelSort insertionSort 2 (0, 0) [(1, 0), (1, 1)] 0 2 less_fst kParallel =
          [(1, 1), (1, 0)]"
    by code_simp
  ultimately show ?thesis
    using swo_less_fst insertionSort_contract[OF swo_less_fst] by simp
qed

section \<open>The branches of \<^verbatim>\<open>parallelMergeSort\<close>\<close>

text \<open>
  Claim C10. With a worker budget of 0 neither branch of \<^verbatim>\<open>parallelMergeSort\<close> is taken:
  the array and the scratch buffer come back unchanged, for every array, size and
  comparator.
\<close>

theorem parallelMergeSort_zero_threads:
  "parallelMergeSort stdsort a sz temp 0 c = (a, temp)"
  by (subst parallelMergeSort.simps) simp

lemma parallelMergeSort_fork_scratch:
  assumes n: "1 < numThreads" and swo: "strict_weak_order c"
    and con: "std_sort_contract stdsort c"
    and sz: "sz \<le> length a" "sz \<le> length temp"
  shows "take sz (snd (parallelMergeSort stdsort a sz temp numThreads c)) =
         take sz (fst (parallelMergeSort stdsort a sz temp numThreads c))"
proof -
  let ?h = "sz div 2"
  obtain aL tempL where eL:
    "parallelMergeSort stdsort a ?h temp (numThreads div 2) c = (aL, tempL)"
    by (cases "parallelMergeSort stdsort a ?h temp (numThreads div 2) c")
  obtain aR tempR where eR:
    "parallelMergeSort stdsort (drop ?h aL) (sz - ?h) (drop ?h tempL)
       (numThreads - numThreads div 2) c = (aR, tempR)"
    by (cases "parallelMergeSort stdsort (drop ?h aL) (sz - ?h) (drop ?h tempL)
                 (numThreads - numThreads div 2) c")
  have "sort_post c (numThreads div 2) ?h a temp
          (parallelMergeSort stdsort a ?h temp (numThreads div 2) c)"
    using swo con sz by (intro parallelMergeSort_post) auto
  then have lenL: "length aL = length a" "length tempL = length temp"
    unfolding eL by (simp_all add: sort_post_def)
  have "sort_post c (numThreads - numThreads div 2) (sz - ?h) (drop ?h aL) (drop ?h tempL)
          (parallelMergeSort stdsort (drop ?h aL) (sz - ?h) (drop ?h tempL)
             (numThreads - numThreads div 2) c)"
    using swo con sz lenL by (intro parallelMergeSort_post) auto
  then have lenR: "length aR = length a - ?h" "length tempR = length temp - ?h"
    unfolding eR using lenL by (simp_all add: sort_post_def)
  define a2 where "a2 = take ?h aL @ aR"
  define t2 where "t2 = take ?h tempL @ tempR"
  have b2: "sz \<le> length a2" "sz \<le> length t2"
    using lenL lenR sz by (simp_all add: a2_def t2_def)
  define M where
    "M = mergeLists c (take (sz div 2) a2) (take (sz - sz div 2) (drop (sz div 2) a2))"
  have lenM: "length M = sz" using b2 by (simp add: M_def)
  have unf: "parallelMergeSort stdsort a sz temp numThreads c = merge a2 sz t2 c"
    using n eL eR by (subst parallelMergeSort.simps) (simp add: a2_def t2_def)
  have "merge a2 sz t2 c = (M @ drop sz a2, M @ drop sz t2)"
    unfolding M_def using b2 by (rule merge_eq)
  then show ?thesis unfolding unf using lenM by simp
qed

text \<open>
  Claim C4, as amended. \<^verbatim>\<open>parallelMergeSort\<close> runs the in-place sequential sort over the
  whole sub-array, and nothing else, exactly when the budget is 1, whatever the size. With
  a budget of 2 or more it always splits, the left child getting \<open>numThreads div 2\<close> and the
  right child \<open>numThreads - numThreads div 2\<close> workers, and merges, also when the size is at
  most 1; the merge shows in the scratch buffer, whose first \<open>sz\<close> cells then equal those of
  the array. With a budget of 0 it does nothing.
\<close>

theorem parallelMergeSort_cases:
  "(numThreads = 1 \<longrightarrow>
      parallelMergeSort stdsort a sz temp numThreads c =
        (stdsort c (take sz a) @ drop sz a, temp)) \<and>
   (1 < numThreads \<longrightarrow>
      parallelMergeSort stdsort a sz temp numThreads c =
        (case parallelMergeSort stdsort a (sz div 2) temp (numThreads div 2) c of
           (aL, tempL) \<Rightarrow>
             (case parallelMergeSort stdsort (drop (sz div 2) aL) (sz - sz div 2)
                     (drop (sz div 2) tempL) (numThreads - numThreads div 2) c of
                (aR, tempR) \<Rightarrow>
                  merge (take (sz div 2) aL @ aR) sz (take (sz div 2) tempL @ tempR) c))) \<and>
   (numThreads = 0 \<longrightarrow> parallelMergeSort stdsort a sz temp numThreads c = (a, temp)) \<and>
   (1 < numThreads \<and> strict_weak_order c \<and> std_sort_contract stdsort c \<and>
    sz \<le> length a \<and> sz \<le> length temp \<longrightarrow>
      take sz (snd (parallelMergeSort stdsort a sz temp numThreads c)) =
      take sz (fst (parallelMergeSort stdsort a sz temp numThreads c)))"
proof (intro conjI impI)
  assume "numThreads = 1"
  then show "parallelMergeSort stdsort a sz temp numThreads c =
        (stdsort c (take sz a) @ drop sz a, temp)"
    by (subst parallelMergeSort.simps) simp
next
  assume "1 < numThreads"
  then show "parallelMergeSort stdsort a sz temp numThreads c =
        (case parallelMergeSort stdsort a (sz div 2) temp (numThreads div 2) c of
           (aL, tempL) \<Rightarrow>
             (case parallelMergeSort stdsort (drop (sz div 2) aL) (sz - sz div 2)
                     (drop (sz div 2) tempL) (numThreads - numThreads div 2) c of
                (aR, tempR) \<Rightarrow>
                  merge (take (sz div 2) aL @ aR) sz (take (sz div 2) tempL @ tempR) c))"
    by (subst parallelMergeSort.simps) simp
next
  assume "numThreads = 0"
  then show "parallelMergeSort stdsort a sz temp numThreads c = (a, temp)"
    by (subst parallelMergeSort.simps) simp
next
  assume "1 < numThreads \<and> strict_weak_order c \<and> std_sort_contract stdsort c \<and>
    sz \<le> length a \<and> sz \<le> length temp"
  then show "take sz (snd (parallelMergeSort stdsort a sz temp numThreads c)) =
      take sz (fst (parallelMergeSort stdsort a sz temp numThreads c))"
    by (intro parallelMergeSort_fork_scratch) simp_all
qed

theorem parallelMergeSort_cases_witness:
  "parallelMergeSort insertionSort [2, 1 :: nat] 2 [0, 0] 1 (<) = ([1, 2], [0, 0]) \<and>
   parallelMergeSort insertionSort [2, 1 :: nat] 2 [0, 0] 0 (<) = ([2, 1], [0, 0]) \<and>
   ((1 :: nat) < 2 \<and> strict_weak_order ((<) :: nat \<Rightarrow> nat \<Rightarrow> bool) \<and>
    std_sort_contract insertionSort ((<) :: nat \<Rightarrow> nat \<Rightarrow> bool) \<and>
    2 \<le> length [2, 1 :: nat] \<and> 2 \<le> length [0, 0 :: nat]) \<and>
   take 2 (snd (parallelMergeSort insertionSort [2, 1 :: nat] 2 [0, 0] 2 (<))) =
   take 2 (fst (parallelMergeSort insertionSort [2, 1 :: nat] 2 [0, 0] 2 (<)))"
proof -
  have s: "insertionSort (<) [2, 1 :: nat] = [1, 2]" by code_simp
  have h: "(1 :: nat) < 2 \<and> strict_weak_order ((<) :: nat \<Rightarrow> nat \<Rightarrow> bool) \<and>
    std_sort_contract insertionSort ((<) :: nat \<Rightarrow> nat \<Rightarrow> bool) \<and>
    2 \<le> length [2, 1 :: nat] \<and> 2 \<le> length [0, 0 :: nat]"
    using swo_less_nat insertionSort_contract[OF swo_less_nat] by simp
  have t1: "parallelMergeSort insertionSort [2, 1 :: nat] 2 [0, 0] 1 (<) = ([1, 2], [0, 0])"
    using parallelMergeSort_cases[of 1 insertionSort "[2, 1 :: nat]" 2 "[0, 0]" "(<)"] s
    by simp
  have t0: "parallelMergeSort insertionSort [2, 1 :: nat] 2 [0, 0] 0 (<) = ([2, 1], [0, 0])"
    using parallelMergeSort_cases[of 0 insertionSort "[2, 1 :: nat]" 2 "[0, 0]" "(<)"]
    by simp
  have t2: "take 2 (snd (parallelMergeSort insertionSort [2, 1 :: nat] 2 [0, 0] 2 (<))) =
            take 2 (fst (parallelMergeSort insertionSort [2, 1 :: nat] 2 [0, 0] 2 (<)))"
    by (rule parallelMergeSort_cases[of 2 insertionSort "[2, 1 :: nat]" 2 "[0, 0]" "(<)",
               THEN conjunct2, THEN conjunct2, THEN conjunct2, THEN mp, OF h])
  show ?thesis
    using t1 t0 t2 h by blast
qed

text \<open>
  The claim as first stated fails on both sides: with a budget of 0 (at most 1) a
  two-element array stays unsorted, and with size 1 and a budget of 2 the merge runs and
  writes the scratch buffer.
\<close>

theorem parallelMergeSort_base_case_counterexample:
  "parallelMergeSort insertionSort [2, 1 :: nat] 2 [0, 0] 0 (<) = ([2, 1], [0, 0]) \<and>
   insertionSort (<) [2, 1 :: nat] = [1, 2] \<and>
   parallelMergeSort insertionSort [5 :: nat] 1 [0] 2 (<) = ([5], [5])"
  by code_simp

section \<open>Ties in the merge\<close>

lemma mergeLists_right_first:
  "(\<forall>l\<in>set ls. \<forall>r\<in>set rs. \<not> c l r) \<Longrightarrow> mergeLists c ls rs = rs @ ls"
  by (induction c ls rs rule: mergeLists.induct) auto

lemma nth_slices:
  assumes "sz \<le> length a"
  shows "set (take (sz div 2) a) = {a ! i | i. i < sz div 2}"
    and "set (take (sz - sz div 2) (drop (sz div 2) a)) = {a ! j | j. sz div 2 \<le> j \<and> j < sz}"
proof -
  have h: "sz div 2 \<le> length a" using assms by linarith
  show "set (take (sz div 2) a) = {a ! i | i. i < sz div 2}"
  proof (intro set_eqI iffI)
    fix x assume "x \<in> set (take (sz div 2) a)"
    then obtain k where "k < sz div 2" "x = take (sz div 2) a ! k"
      using h by (auto simp: set_conv_nth)
    then show "x \<in> {a ! i | i. i < sz div 2}" by force
  next
    fix x assume "x \<in> {a ! i | i. i < sz div 2}"
    then obtain i where i: "i < sz div 2" "x = a ! i" by blast
    have "i < length (take (sz div 2) a)" using i h by simp
    moreover have "take (sz div 2) a ! i = x" using i by simp
    ultimately show "x \<in> set (take (sz div 2) a)" by (metis nth_mem)
  qed
  show "set (take (sz - sz div 2) (drop (sz div 2) a)) = {a ! j | j. sz div 2 \<le> j \<and> j < sz}"
  proof (intro set_eqI iffI)
    fix x assume "x \<in> set (take (sz - sz div 2) (drop (sz div 2) a))"
    then obtain k where k: "k < sz - sz div 2" "x = drop (sz div 2) a ! k"
      using assms by (auto simp: set_conv_nth)
    then have "x = a ! (sz div 2 + k)" using h by simp
    then show "x \<in> {a ! j | j. sz div 2 \<le> j \<and> j < sz}" using k(1) by force
  next
    fix x assume "x \<in> {a ! j | j. sz div 2 \<le> j \<and> j < sz}"
    then obtain j where j: "sz div 2 \<le> j" "j < sz" "x = a ! j" by blast
    define k where "k = j - sz div 2"
    have "k < length (take (sz - sz div 2) (drop (sz div 2) a))" using j assms by (simp add: k_def)
    moreover have "take (sz - sz div 2) (drop (sz div 2) a) ! k = x"
      using j assms h by (simp add: k_def)
    ultimately show "x \<in> set (take (sz - sz div 2) (drop (sz div 2) a))"
      by (metis nth_mem)
  qed
qed

text \<open>
  Claim C2, as amended. In the first loop of \<^verbatim>\<open>merge\<close> the left element is emitted only
  when it is strictly less than the right one; whenever it is not, in particular on a tie,
  the element of the right half is emitted first. So tied elements do not keep their
  left/right order: when no left element is strictly less than any right element (for
  instance when all tie), the merged range is the right half followed by the left half.
\<close>

theorem merge_ties_favour_right:
  "(i1 < sz div 2 \<and> i2 < sz \<and> \<not> c (a ! i1) (a ! i2) \<longrightarrow>
      mergeLoop1 c a sz (i1, i2, tempi, temp) =
      mergeLoop1 c a sz (i1, i2 + 1, tempi + 1, temp[tempi := a ! i2])) \<and>
   (sz \<le> length a \<and> sz \<le> length temp \<and>
    (\<forall>i<sz div 2. \<forall>j<sz. sz div 2 \<le> j \<longrightarrow> \<not> c (a ! i) (a ! j)) \<longrightarrow>
      take sz (fst (merge a sz temp c)) =
      take (sz - sz div 2) (drop (sz div 2) a) @ take (sz div 2) a)"
proof (intro conjI impI)
  assume "i1 < sz div 2 \<and> i2 < sz \<and> \<not> c (a ! i1) (a ! i2)"
  then show "mergeLoop1 c a sz (i1, i2, tempi, temp) =
      mergeLoop1 c a sz (i1, i2 + 1, tempi + 1, temp[tempi := a ! i2])"
    by (subst mergeLoop1.simps) simp
next
  assume h: "sz \<le> length a \<and> sz \<le> length temp \<and>
    (\<forall>i<sz div 2. \<forall>j<sz. sz div 2 \<le> j \<longrightarrow> \<not> c (a ! i) (a ! j))"
  then have b: "sz \<le> length a" "sz \<le> length temp" by simp_all
  have "\<forall>l\<in>set (take (sz div 2) a). \<forall>r\<in>set (take (sz - sz div 2) (drop (sz div 2) a)). \<not> c l r"
    unfolding nth_slices[OF b(1)] using h by auto
  then have m: "mergeLists c (take (sz div 2) a) (take (sz - sz div 2) (drop (sz div 2) a)) =
        take (sz - sz div 2) (drop (sz div 2) a) @ take (sz div 2) a"
    by (rule mergeLists_right_first)
  define X where "X = take (sz - sz div 2) (drop (sz div 2) a) @ take (sz div 2) a"
  have len: "length X = sz" using b by (simp add: X_def)
  have "fst (merge a sz temp c) = X @ drop sz a"
    unfolding merge_eq[OF b] m fst_conv X_def ..
  then have "take sz (fst (merge a sz temp c)) = X" using len by simp
  then show "take sz (fst (merge a sz temp c)) =
      take (sz - sz div 2) (drop (sz div 2) a) @ take (sz div 2) a"
    unfolding X_def .
qed

theorem merge_ties_favour_right_witness:
  "\<not> less_fst ([(1, 0), (1, 1)] ! 0) ([(1, 0), (1, 1)] ! 1) \<and>
   mergeLoop1 less_fst [(1, 0), (1, 1)] 2 (0, 1, 0, [(0, 0), (0, 0)]) =
     mergeLoop1 less_fst [(1, 0), (1, 1)] 2
       (0, 1 + 1, 0 + 1, [(0, 0), (0, 0)][0 := [(1, 0), (1, 1)] ! 1]) \<and>
   take 2 (fst (merge [(1, 0), (1, 1)] 2 [(0, 0), (0, 0)] less_fst)) =
     take (2 - 2 div 2) (drop (2 div 2) [(1, 0), (1, 1)]) @ take (2 div 2) [(1, 0), (1, 1)] \<and>
   take 2 (fst (merge [(1, 0), (1, 1)] 2 [(0, 0), (0, 0)] less_fst)) = [(1, 1), (1, 0)]"
proof -
  have h1: "0 < (2::nat) div 2 \<and> (1::nat) < 2 \<and>
            \<not> less_fst ([(1, 0), (1, 1)] ! 0) ([(1, 0), (1, 1)] ! 1)"
    by (simp add: less_fst_def)
  have h2: "2 \<le> length [(1::nat, 0::nat), (1, 1)] \<and> 2 \<le> length [(0::nat, 0::nat), (0, 0)] \<and>
    (\<forall>i<2 div 2. \<forall>j<2. 2 div 2 \<le> j \<longrightarrow>
       \<not> less_fst ([(1, 0), (1, 1)] ! i) ([(1, 0), (1, 1)] ! j))"
    by (auto simp: less_fst_def less_Suc_eq)
  note t = merge_ties_favour_right[of 0 2 1 less_fst "[(1, 0), (1, 1)]" 0 "[(0, 0), (0, 0)]"]
  have c1: "mergeLoop1 less_fst [(1, 0), (1, 1)] 2 (0, 1, 0, [(0, 0), (0, 0)]) =
     mergeLoop1 less_fst [(1, 0), (1, 1)] 2
       (0, 1 + 1, 0 + 1, [(0, 0), (0, 0)][0 := [(1, 0), (1, 1)] ! 1])"
    by (rule t[THEN conjunct1, THEN mp, OF h1])
  have c2: "take 2 (fst (merge [(1, 0), (1, 1)] 2 [(0, 0), (0, 0)] less_fst)) =
     take (2 - 2 div 2) (drop (2 div 2) [(1, 0), (1, 1)]) @ take (2 div 2) [(1, 0), (1, 1)]"
    by (rule t[THEN conjunct2, THEN mp, OF h2])
  have c3: "take 2 (fst (merge [(1, 0), (1, 1)] 2 [(0, 0), (0, 0)] less_fst)) = [(1, 1), (1, 0)]"
    unfolding c2 by simp
  from h1 have h1': "\<not> less_fst ([(1, 0), (1, 1)] ! 0) ([(1, 0), (1, 1)] ! 1)" by blast
  show ?thesis by (intro conjI h1' c1 c2 c3)
qed

text \<open>
  Two tied elements, one per half: the one from the right half comes out first.
\<close>

theorem merge_tie_counterexample:
  "equiv_under less_fst (1, 0) (1, 1) \<and>
   fst (merge [(1, 0), (1, 1)] 2 [(0, 0), (0, 0)] less_fst) = [(1, 1), (1, 0)]"
  by code_simp

section \<open>\<^verbatim>\<open>parallelFor\<close> and the inverted domains\<close>

lemma forLoop_fold: "forLoop i endIdx func s = fold func [i..endIdx - 1] s"
proof (induction i endIdx func s rule: forLoop.induct)
  case (1 i endIdx func s)
  show ?case
  proof (cases "i < endIdx")
    case True
    then have "[i..endIdx - 1] = i # [i + 1..endIdx - 1]" by (simp add: upto_rec1)
    then show ?thesis using True 1 by (subst forLoop.simps) simp
  next
    case False
    then show ?thesis by (subst forLoop.simps) simp
  qed
qed

lemma parallelFor_fold:
  "parallelFor start endIdx func policy s = fold func [start..endIdx - 1] s"
  by (simp add: parallelFor_def forLoop_fold)

lemma fold_log: "fold (\<lambda>i log. log @ [i]) xs log0 = log0 @ xs"
  by (induction xs arbitrary: log0) simp_all

lemma parallelFor_calls_eq: "parallelFor_calls start endIdx policy = [start..endIdx - 1]"
  by (simp add: parallelFor_calls_def parallelFor_fold fold_log)

lemma count_list_distinct:
  "distinct xs \<Longrightarrow> count_list xs x = (if x \<in> set xs then 1 else 0)"
  by (induction xs) auto

text \<open>
  Claim C7. For every pair \<open>(start, endIdx)\<close> and both policies, the one-index \<^verbatim>\<open>parallelFor\<close>
  calls \<^verbatim>\<open>func\<close> exactly once on every index \<open>i\<close> with \<open>start \<le> i < endIdx\<close> and on no other
  index; when \<open>endIdx \<le> start\<close> it makes no call. (This function never reads the worker
  hint, so the statement holds for every hint.)
\<close>

theorem parallelFor_visits_once:
  "count_list (parallelFor_calls start endIdx policy) i =
     (if start \<le> i \<and> i < endIdx then 1 else 0) \<and>
   (endIdx \<le> start \<longrightarrow> parallelFor_calls start endIdx policy = [])"
proof -
  have d: "distinct [start..endIdx - 1]" by simp
  have "count_list [start..endIdx - 1] i = (if i \<in> set [start..endIdx - 1] then 1 else 0)"
    using d by (rule count_list_distinct)
  then show ?thesis unfolding parallelFor_calls_eq by auto
qed

theorem parallelFor_visits_once_witness:
  "count_list (parallelFor_calls 2 6 kParallel) 4 = 1 \<and>
   count_list (parallelFor_calls 2 6 kParallel) 6 = 0 \<and>
   ((3::int) \<le> 3 \<and> parallelFor_calls 3 3 kSerial = []) \<and>
   ((3::int) \<le> 7 \<and> parallelFor_calls 7 3 kParallel = [])"
  using parallelFor_visits_once[of 2 6 kParallel 4] parallelFor_visits_once[of 2 6 kParallel 6]
    parallelFor_visits_once[of 3 3 kSerial 0] parallelFor_visits_once[of 7 3 kParallel 0]
  by simp

text \<open>
  Claim C8. On an inverted domain the entry points return at once: \<^verbatim>\<open>parallelFor\<close> and
  \<^verbatim>\<open>parallelRangeFor\<close> with \<open>start > endIdx\<close> leave the state as it is and call nothing,
  \<^verbatim>\<open>parallelFill\<close> with \<^verbatim>\<open>end - begin \<le> 0\<close> and \<^verbatim>\<open>parallelSort\<close> with \<^verbatim>\<open>end < begin\<close> leave the
  buffer as it is.
\<close>

theorem inverted_domain_noop:
  "(endIdx < start \<longrightarrow>
      parallelFor start endIdx func policy s = s \<and>
      parallelFor_calls start endIdx policy = [] \<and>
      parallelRangeFor stdround numThreadsHint start endIdx rfunc policy s' = s' \<and>
      parallelRangeFor_calls stdround numThreadsHint start endIdx policy = []) \<and>
   (int endIt - int beginIt \<le> 0 \<longrightarrow> parallelFill mem beginIt endIt val policy = mem) \<and>
   (endIt < beginIt \<longrightarrow>
      parallelSort stdsort numThreadsHint vinit mem beginIt endIt c policy = mem)"
  by (simp add: parallelFor_def parallelFor_calls_def parallelRangeFor_def
        parallelRangeFor_calls_def parallelFill_def parallelSort_def)

theorem inverted_domain_noop_witness:
  "((2::int) < 5 \<and>
      parallelFor 5 2 (\<lambda>i log. log @ [i]) kParallel [7] = [7] \<and>
      parallelFor_calls 5 2 kParallel = [] \<and>
      parallelRangeFor roundQuot 4 5 2 (\<lambda>b e log. log @ [(b, e)]) kParallel [(0, 0)] =
        [(0, 0)] \<and>
      parallelRangeFor_calls roundQuot 4 5 2 kParallel = []) \<and>
   (int 1 - int 3 \<le> 0 \<and> parallelFill [5, 6, 7, 8 :: nat] 3 1 0 kParallel = [5, 6, 7, 8]) \<and>
   ((1::nat) < 3 \<and> parallelSort insertionSort 4 0 [8, 7, 6, 5 :: nat] 3 1 (<) kParallel = [8, 7, 6, 5])"
  using inverted_domain_noop[of 2 5 "\<lambda>i log. log @ [i]" kParallel "[7]" roundQuot 4
          "\<lambda>b e log. log @ [(b, e)]" "[(0, 0)]" 1 3 "[8, 7, 6, 5 :: nat]" 0 insertionSort 0 "(<)"]
    inverted_domain_noop[of 2 5 "\<lambda>i log. log @ [i]" kParallel "[7]" roundQuot 4
          "\<lambda>b e log. log @ [(b, e)]" "[(0, 0)]" 1 3 "[5, 6, 7, 8 :: nat]" 0 insertionSort 0 "(<)"]
  by simp

section \<open>The partition plan of \<^verbatim>\<open>parallelRangeFor\<close>\<close>

lemma wrapIndex_id: "0 \<le> x \<Longrightarrow> x < 2 ^ 64 \<Longrightarrow> wrapIndex x = x"
  by (simp add: wrapIndex_def)

lemma rangeLoop_plan:
  "1 \<le> slice \<Longrightarrow> 0 \<le> i1 \<Longrightarrow> i1 \<le> endIdx \<Longrightarrow> endIdx + slice \<le> 2 ^ 64 \<Longrightarrow>
   i2 = min (wrapIndex (i1 + slice)) endIdx \<Longrightarrow>
   \<exists>rs i' j1 j2.
     rangeLoop endIdx slice n (\<lambda>b e log. log @ [(b, e)]) (i, i1, i2, log0) =
       (i', j1, j2, log0 @ rs) \<and>
     chained i1 rs j1 \<and> j1 \<le> endIdx \<and> i' = i + length rs \<and>
     (i' + 1 < n \<longrightarrow> j1 = endIdx) \<and> (i < n \<longrightarrow> i' < n)"
proof (induction endIdx slice n "\<lambda>(b::int) (e::int) (log :: (int \<times> int) list). log @ [(b, e)]"
         "(i, i1, i2, log0)" arbitrary: i i1 i2 log0 rule: rangeLoop.induct)
  case (1 endIdx slice n i i1 i2 log0)
  show ?case
  proof (cases "i + 1 < n \<and> i1 < endIdx")
    case True
    have "0 \<le> i1 + slice" "i1 + slice < 2 ^ 64" using True "1.prems" by auto
    then have w: "wrapIndex (i1 + slice) = i1 + slice" by (rule wrapIndex_id)
    have lt: "i1 < i2" "i2 \<le> endIdx" using True "1.prems" w by auto
    have nn: "0 \<le> i2" using lt "1.prems"(2) by simp
    obtain rs i' j1 j2 where
      run: "rangeLoop endIdx slice n (\<lambda>b e log. log @ [(b, e)])
              (i + 1, i2, min (wrapIndex (i2 + slice)) endIdx, log0 @ [(i1, i2)]) =
              (i', j1, j2, (log0 @ [(i1, i2)]) @ rs)"
      and ch: "chained i2 rs j1" and le: "j1 \<le> endIdx" and cnt: "i' = i + 1 + length rs"
      and ex: "i' + 1 < n \<longrightarrow> j1 = endIdx" and bd: "i + 1 < n \<longrightarrow> i' < n"
      using "1.hyps"[OF True "1.prems"(1) nn lt(2) "1.prems"(4) refl] by blast
    have "rangeLoop endIdx slice n (\<lambda>b e log. log @ [(b, e)]) (i, i1, i2, log0) =
            (i', j1, j2, log0 @ ((i1, i2) # rs))"
      using True run by (subst rangeLoop.simps) simp
    moreover have "chained i1 ((i1, i2) # rs) j1" using ch lt by simp
    moreover have "i' = i + length ((i1, i2) # rs)" using cnt by simp
    moreover have "i < n \<longrightarrow> i' < n" using bd True by simp
    ultimately show ?thesis using le ex by blast
  next
    case False
    have "rangeLoop endIdx slice n (\<lambda>b e log. log @ [(b, e)]) (i, i1, i2, log0) =
            (i, i1, i2, log0 @ [])"
      using False by (subst rangeLoop.simps) auto
    moreover have "chained i1 [] i1" by simp
    moreover have "i + 1 < n \<longrightarrow> i1 = endIdx" using False "1.prems" by auto
    ultimately show ?thesis using "1.prems"(3) by force
  qed
qed

lemma chained_snoc: "chained b (rs @ [(l, r)]) e = (chained b rs l \<and> l < r \<and> r = e)"
  by (induction b rs l rule: chained.induct) auto

lemma sliceOf_pos: "1 \<le> sliceOf stdround start endIdx numThreads"
  by (simp add: sliceOf_def Let_def)

lemma numThreadsOf_pos: "1 \<le> numThreadsOf policy numThreadsHint"
  by (simp add: numThreadsOf_def)

lemma parallelRangeFor_calls_plan:
  assumes "0 \<le> start" and "start \<le> endIdx"
    and "endIdx + sliceOf stdround start endIdx (numThreadsOf policy numThreadsHint) \<le> 2 ^ 64"
  shows "chained start (parallelRangeFor_calls stdround numThreadsHint start endIdx policy) endIdx \<and>
         length (parallelRangeFor_calls stdround numThreadsHint start endIdx policy) \<le>
           numThreadsOf policy numThreadsHint"
proof -
  define n where "n = numThreadsOf policy numThreadsHint"
  define slice where "slice = sliceOf stdround start endIdx n"
  have n1: "1 \<le> n" unfolding n_def by (rule numThreadsOf_pos)
  have s1: "1 \<le> slice" unfolding slice_def by (rule sliceOf_pos)
  have nov: "endIdx + slice \<le> 2 ^ 64" using assms(3) by (simp add: slice_def n_def)
  obtain rs i' j1 j2 where
    run: "rangeLoop endIdx slice n (\<lambda>b e log. log @ [(b, e)])
            (0, start, min (wrapIndex (start + slice)) endIdx, []) = (i', j1, j2, [] @ rs)"
    and ch: "chained start rs j1" and le: "j1 \<le> endIdx" and cnt: "i' = 0 + length rs"
    and bd: "0 < n \<longrightarrow> i' < n"
    using rangeLoop_plan[OF s1 assms(1,2) nov refl, of n 0 "[]"] by blast
  have calls: "parallelRangeFor_calls stdround numThreadsHint start endIdx policy =
        (if j1 < endIdx then rs @ [(j1, endIdx)] else rs)"
    using assms(2) run
    by (simp add: parallelRangeFor_calls_def parallelRangeFor_def Let_def
          n_def[symmetric] slice_def[symmetric])
  show ?thesis
  proof (cases "j1 < endIdx")
    case True
    then show ?thesis
      unfolding calls n_def[symmetric] using ch cnt bd n1 by (simp add: chained_snoc)
  next
    case False
    then have "j1 = endIdx" using le by simp
    then show ?thesis
      unfolding calls n_def[symmetric] using ch cnt bd n1 False by simp
  qed
qed

lemma chained_le: "chained b rs e \<Longrightarrow> b \<le> e"
  by (induction b rs e rule: chained.induct) auto

lemma chained_union: "chained b rs e \<Longrightarrow> (\<Union>(l, r)\<in>set rs. {l..<r}) = {b..<e}"
proof (induction b rs e rule: chained.induct)
  case (1 b e)
  then show ?case by simp
next
  case (2 b l r rs e)
  then have "l = b" "l < r" "chained r rs e" by simp_all
  moreover have "r \<le> e" using \<open>chained r rs e\<close> by (rule chained_le)
  ultimately show ?case using 2 by auto
qed

lemma chained_nth:
  "chained b rs e \<Longrightarrow> k < length rs \<Longrightarrow>
   fst (rs ! k) < snd (rs ! k) \<and> b \<le> fst (rs ! k) \<and> snd (rs ! k) \<le> e \<and>
   (Suc k < length rs \<longrightarrow> fst (rs ! Suc k) = snd (rs ! k)) \<and>
   (\<forall>j<k. snd (rs ! j) \<le> fst (rs ! k))"
proof (induction b rs e arbitrary: k rule: chained.induct)
  case (1 b e)
  then show ?case by simp
next
  case (2 b l r rs e)
  then have h: "l = b" "l < r" "chained r rs e" by simp_all
  have re: "r \<le> e" using h(3) by (rule chained_le)
  show ?case
  proof (cases k)
    case 0
    have "rs \<noteq> [] \<Longrightarrow> fst (rs ! 0) = r" using h(3) by (cases rs) auto
    then show ?thesis using 0 h re by auto
  next
    case (Suc k')
    then have k': "k' < length rs" using "2.prems"(2) by simp
    note IH = "2.IH"[OF h(3) k']
    have "snd (((l, r) # rs) ! j) \<le> fst (rs ! k')" if "j < Suc k'" for j
    proof (cases j)
      case 0
      then show ?thesis using IH by simp
    next
      case (Suc j')
      then show ?thesis using IH that by simp
    qed
    then show ?thesis using Suc IH h by auto
  qed
qed

lemma chained_ends:
  "chained b rs e \<Longrightarrow> rs \<noteq> [] \<Longrightarrow> fst (hd rs) = b \<and> snd (last rs) = e"
  by (induction b rs e rule: chained.induct) auto

lemma chained_empty: "chained b rs e \<Longrightarrow> (rs = [] \<longleftrightarrow> b = e)"
  by (induction b rs e rule: chained.induct) (auto dest: chained_le)

text \<open>
  Claim C6, as amended. For every domain with \<open>0 \<le> start \<le> endIdx\<close> on which \<open>endIdx + slice\<close>
  does not exceed \<open>2^64\<close> (so that no \<^verbatim>\<open>i2 + slice\<close> formed below \<^verbatim>\<open>end\<close> wraps around), both
  policies and every thread hint (so every worker count of at least 1), the sub-ranges
  \<^verbatim>\<open>parallelRangeFor\<close> passes to its callable are, in call order: proper ranges (begin
  before end), contiguous (each begins where the one before ended), pairwise disjoint, with
  union exactly \<open>[start, endIdx)\<close>, the first beginning at \<open>start\<close> and the last ending at
  \<open>endIdx\<close>; there are at most \<open>numThreads\<close> of them, and none exactly when the domain is
  empty.
\<close>

theorem parallelRangeFor_partition:
  assumes "0 \<le> start" and "start \<le> endIdx"
    and "endIdx + sliceOf stdround start endIdx (numThreadsOf policy numThreadsHint) \<le> 2 ^ 64"
  shows "let rs = parallelRangeFor_calls stdround numThreadsHint start endIdx policy in
     (\<forall>k<length rs. fst (rs ! k) < snd (rs ! k)) \<and>
     (\<forall>k. Suc k < length rs \<longrightarrow> fst (rs ! Suc k) = snd (rs ! k)) \<and>
     (\<forall>j k. j < k \<and> k < length rs \<longrightarrow>
        {fst (rs ! j)..<snd (rs ! j)} \<inter> {fst (rs ! k)..<snd (rs ! k)} = {}) \<and>
     (\<Union>(l, r)\<in>set rs. {l..<r}) = {start..<endIdx} \<and>
     (rs \<noteq> [] \<longrightarrow> fst (hd rs) = start \<and> snd (last rs) = endIdx) \<and>
     length rs \<le> numThreadsOf policy numThreadsHint \<and>
     (rs = [] \<longleftrightarrow> start = endIdx)"
proof -
  define rs where "rs = parallelRangeFor_calls stdround numThreadsHint start endIdx policy"
  have ch: "chained start rs endIdx" and len: "length rs \<le> numThreadsOf policy numThreadsHint"
    using parallelRangeFor_calls_plan[OF assms] by (simp_all add: rs_def)
  have p1: "\<forall>k<length rs. fst (rs ! k) < snd (rs ! k)"
    using chained_nth[OF ch] by blast
  have p2: "\<forall>k. Suc k < length rs \<longrightarrow> fst (rs ! Suc k) = snd (rs ! k)"
    using chained_nth[OF ch] by (meson Suc_lessD)
  have p3: "\<forall>j k. j < k \<and> k < length rs \<longrightarrow>
        {fst (rs ! j)..<snd (rs ! j)} \<inter> {fst (rs ! k)..<snd (rs ! k)} = {}"
  proof (intro allI impI)
    fix j k assume jk: "j < k \<and> k < length rs"
    then have "snd (rs ! j) \<le> fst (rs ! k)" using chained_nth[OF ch, of k] by blast
    then show "{fst (rs ! j)..<snd (rs ! j)} \<inter> {fst (rs ! k)..<snd (rs ! k)} = {}" by auto
  qed
  have p4: "(\<Union>(l, r)\<in>set rs. {l..<r}) = {start..<endIdx}"
    using ch by (rule chained_union)
  have p5: "rs \<noteq> [] \<longrightarrow> fst (hd rs) = start \<and> snd (last rs) = endIdx"
    using chained_ends[OF ch] by blast
  have p7: "rs = [] \<longleftrightarrow> start = endIdx" using ch by (rule chained_empty)
  show ?thesis
    unfolding Let_def rs_def[symmetric] using p1 p2 p3 p4 p5 len p7 by blast
qed

theorem parallelRangeFor_partition_witness:
  "(0 :: int) \<le> 0 \<and> (0 :: int) \<le> 10 \<and>
   10 + sliceOf roundQuot 0 10 (numThreadsOf kParallel 3) = 14 \<and>
   parallelRangeFor_calls roundQuot 3 0 10 kParallel = [(0, 4), (4, 8), (8, 10)] \<and>
   (\<Union>(l, r)\<in>set (parallelRangeFor_calls roundQuot 3 0 10 kParallel). {l..<r}) = {0..<10} \<and>
   length (parallelRangeFor_calls roundQuot 3 0 10 kParallel) \<le> numThreadsOf kParallel 3"
proof -
  have h1: "(0 :: int) \<le> 0" by simp
  have h2: "(0 :: int) \<le> 10" by simp
  have sl: "10 + sliceOf roundQuot 0 10 (numThreadsOf kParallel 3) = 14" by code_simp
  have h3: "10 + sliceOf roundQuot 0 10 (numThreadsOf kParallel 3) \<le> 2 ^ 64"
    unfolding sl by simp
  have ev: "parallelRangeFor_calls roundQuot 3 0 10 kParallel = [(0, 4), (4, 8), (8, 10)]"
    by code_simp
  have "(\<Union>(l, r)\<in>set (parallelRangeFor_calls roundQuot 3 0 10 kParallel). {l..<r}) = {0..<10} \<and>
        length (parallelRangeFor_calls roundQuot 3 0 10 kParallel) \<le> numThreadsOf kParallel 3"
    using parallelRangeFor_partition[OF h1 h2 h3] unfolding Let_def by blast
  then show ?thesis using h1 h2 sl ev by blast
qed

text \<open>
  Without the bound the claim fails. With \<^verbatim>\<open>IndexType = size_t\<close>, \<open>start = 2^64 - 6\<close>,
  \<open>endIdx = 2^64 - 1\<close> and 4 workers the slice is 2; after two sub-ranges \<^verbatim>\<open>i2 + slice\<close> wraps
  around to 0, and the callable receives the inverted sub-range \<open>(2^64 - 2, 0)\<close> and then
  \<open>(0, 2^64 - 1)\<close>, which lies outside the domain and overlaps the others.
\<close>

theorem parallelRangeFor_partition_counterexample:
  "(0 :: int) \<le> 18446744073709551610 \<and>
   (18446744073709551610 :: int) \<le> 18446744073709551615 \<and>
   (18446744073709551615 :: int) < 2 ^ 64 \<and>
   parallelRangeFor_calls roundQuot 4 18446744073709551610 18446744073709551615 kParallel =
     [(18446744073709551610, 18446744073709551612),
      (18446744073709551612, 18446744073709551614),
      (18446744073709551614, 0),
      (0, 18446744073709551615)]"
  by code_simp

section \<open>\<^verbatim>\<open>parallelReduce\<close>\<close>

lemma loops_agree:
  "\<exists>rs t' j1 j2.
     rangeLoop endIdx slice n (\<lambda>b e log. log @ [(b, e)]) (tid, i1, i2, log0) =
       (t', j1, j2, log0 @ rs) \<and>
     t' = tid + length rs \<and> (tid < n \<longrightarrow> t' < n) \<and>
     (n \<le> length results \<longrightarrow>
        reduceLoop endIdx slice n ident func (tid, i1, i2, results) =
          (t', j1, j2,
           take tid results @ map (\<lambda>(b, e). func b e ident) rs @ drop t' results))"
proof (induction endIdx slice n "\<lambda>(b::int) (e::int) (log :: (int \<times> int) list). log @ [(b, e)]"
         "(tid, i1, i2, log0)" arbitrary: tid i1 i2 log0 results rule: rangeLoop.induct)
  case (1 endIdx slice n tid i1 i2 log0)
  show ?case
  proof (cases "tid + 1 < n \<and> i1 < endIdx")
    case True
    define res1 where "res1 = results[tid := func i1 i2 ident]"
    obtain rs t' j1 j2 where
      run: "rangeLoop endIdx slice n (\<lambda>b e log. log @ [(b, e)])
              (tid + 1, i2, min (wrapIndex (i2 + slice)) endIdx, log0 @ [(i1, i2)]) =
              (t', j1, j2, (log0 @ [(i1, i2)]) @ rs)"
      and cnt: "t' = tid + 1 + length rs" and bd: "tid + 1 < n \<longrightarrow> t' < n"
      and red: "n \<le> length res1 \<longrightarrow>
        reduceLoop endIdx slice n ident func (tid + 1, i2, min (wrapIndex (i2 + slice)) endIdx, res1) =
          (t', j1, j2,
           take (tid + 1) res1 @ map (\<lambda>(b, e). func b e ident) rs @ drop t' res1)"
      using "1.hyps"[OF True, of res1] by blast
    have a: "rangeLoop endIdx slice n (\<lambda>b e log. log @ [(b, e)]) (tid, i1, i2, log0) =
            (t', j1, j2, log0 @ ((i1, i2) # rs))"
      using True run by (subst rangeLoop.simps) simp
    have b: "t' = tid + length ((i1, i2) # rs)" using cnt by simp
    have c: "tid < n \<longrightarrow> t' < n" using bd True by simp
    have d: "reduceLoop endIdx slice n ident func (tid, i1, i2, results) =
          (t', j1, j2,
           take tid results @ map (\<lambda>(b, e). func b e ident) ((i1, i2) # rs) @ drop t' results)"
      if len: "n \<le> length results"
    proof -
      have tl: "tid < length results" using True len by simp
      have t1: "take (tid + 1) res1 = take tid results @ [func i1 i2 ident]"
        using tl by (simp add: res1_def upd_take_Suc)
      have t2: "drop t' res1 = drop t' results" using cnt by (simp add: res1_def)
      have "reduceLoop endIdx slice n ident func (tid, i1, i2, results) =
            reduceLoop endIdx slice n ident func (tid + 1, i2, min (wrapIndex (i2 + slice)) endIdx, res1)"
        using True by (subst reduceLoop.simps) (simp add: res1_def)
      also have "\<dots> = (t', j1, j2,
           take (tid + 1) res1 @ map (\<lambda>(b, e). func b e ident) rs @ drop t' res1)"
        using red len by (simp add: res1_def)
      finally show ?thesis unfolding t1 t2 by simp
    qed
    show ?thesis using a b c d by blast
  next
    case False
    have a: "rangeLoop endIdx slice n (\<lambda>b e log. log @ [(b, e)]) (tid, i1, i2, log0) =
            (tid, i1, i2, log0 @ [])"
      using False by (subst rangeLoop.simps) auto
    have d: "reduceLoop endIdx slice n ident func (tid, i1, i2, results) =
          (tid, i1, i2,
           take tid results @ map (\<lambda>(b, e). func b e ident) [] @ drop tid results)"
      using False by (subst reduceLoop.simps) auto
    show ?thesis using a d by force
  qed
qed

lemma parallelReduce_eq:
  assumes "start \<le> endIdx"
  shows "parallelReduce stdround numThreadsHint start endIdx ident func reduce policy =
     fold reduce
       (map (\<lambda>(b, e). func b e ident)
          (parallelRangeFor_calls stdround numThreadsHint start endIdx policy) @
        replicate (numThreadsOf policy numThreadsHint -
                   length (parallelRangeFor_calls stdround numThreadsHint start endIdx policy)) ident)
       ident"
    and "length (parallelRangeFor_calls stdround numThreadsHint start endIdx policy) \<le>
         numThreadsOf policy numThreadsHint"
proof -
  define n where "n = numThreadsOf policy numThreadsHint"
  define slice where "slice = sliceOf stdround start endIdx n"
  define F where "F = (\<lambda>(b :: int, e :: int). func b e ident)"
  have n1: "0 < n" unfolding n_def using numThreadsOf_pos[of policy numThreadsHint] by simp
  obtain rs t' j1 j2 where
    run: "rangeLoop endIdx slice n (\<lambda>b e log. log @ [(b, e)])
            (0, start, min (wrapIndex (start + slice)) endIdx, []) = (t', j1, j2, [] @ rs)"
    and cnt: "t' = 0 + length rs" and bd: "0 < n \<longrightarrow> t' < n"
    and red: "n \<le> length (replicate n ident) \<longrightarrow>
        reduceLoop endIdx slice n ident func
          (0, start, min (wrapIndex (start + slice)) endIdx, replicate n ident) =
          (t', j1, j2, take 0 (replicate n ident) @ map (\<lambda>(b, e). func b e ident) rs @
                       drop t' (replicate n ident))"
    using loops_agree[of endIdx slice n 0 start "min (wrapIndex (start + slice)) endIdx" "[]"
            "replicate n ident" ident func] by blast
  have tl: "t' = length rs" "length rs < n" using cnt bd n1 by simp_all
  have calls: "parallelRangeFor_calls stdround numThreadsHint start endIdx policy =
        (if j1 < endIdx then rs @ [(j1, endIdx)] else rs)"
    using assms run
    by (simp add: parallelRangeFor_calls_def parallelRangeFor_def Let_def
          n_def[symmetric] slice_def[symmetric])
  show "length (parallelRangeFor_calls stdround numThreadsHint start endIdx policy) \<le>
         numThreadsOf policy numThreadsHint"
    unfolding calls n_def[symmetric] using tl by simp
  have red': "reduceLoop endIdx slice n ident func
          (0, start, min (wrapIndex (start + slice)) endIdx, replicate n ident) =
          (t', j1, j2, map F rs @ replicate (n - length rs) ident)"
    using red tl by (simp add: F_def)
  have val: "parallelReduce stdround numThreadsHint start endIdx ident func reduce policy =
       fold reduce
         (if j1 < endIdx then (map F rs @ replicate (n - length rs) ident)[t' := func j1 endIdx ident]
          else map F rs @ replicate (n - length rs) ident) ident"
    using assms
    by (simp add: parallelReduce_def Let_def n_def[symmetric] slice_def[symmetric] red')
  have upd: "(map F rs @ replicate (n - length rs) ident)[t' := func j1 endIdx ident] =
             map F (rs @ [(j1, endIdx)]) @ replicate (n - length (rs @ [(j1, endIdx)])) ident"
  proof -
    obtain m where m: "n - length rs = Suc m" using tl by (metis Suc_diff_Suc)
    then have m': "n - Suc (length rs) = m" by simp
    show ?thesis unfolding tl(1)
      by (simp add: list_update_append m m' F_def)
  qed
  show "parallelReduce stdround numThreadsHint start endIdx ident func reduce policy =
     fold reduce
       (map (\<lambda>(b, e). func b e ident)
          (parallelRangeFor_calls stdround numThreadsHint start endIdx policy) @
        replicate (numThreadsOf policy numThreadsHint -
                   length (parallelRangeFor_calls stdround numThreadsHint start endIdx policy)) ident)
       ident"
    unfolding val calls n_def[symmetric] F_def[symmetric]
    using upd by (cases "j1 < endIdx") simp_all
qed

lemma parallelRangeFor_calls_empty:
  "parallelRangeFor_calls stdround numThreadsHint start start policy = []"
  by (simp add: parallelRangeFor_calls_def parallelRangeFor_def Let_def rangeLoop.simps)

text \<open>
  Claim C9. For every domain with \<open>start \<le> endIdx\<close>, the value \<^verbatim>\<open>parallelReduce\<close> returns is
  the fold, from the accumulator \<open>ident\<close> and with \<^verbatim>\<open>reduce(value, accumulator)\<close>, over
  exactly \<open>numThreads\<close> values in order: the partials \<^verbatim>\<open>func(rangeBegin, rangeEnd, identity)\<close>
  of the partitions in partition order, then one copy of \<open>ident\<close> for every worker slot that
  received no partition.
\<close>

theorem parallelReduce_gather:
  assumes "start \<le> endIdx"
  shows "parallelReduce stdround numThreadsHint start endIdx ident func reduce policy =
     fold reduce
       (map (\<lambda>(b, e). func b e ident)
          (parallelRangeFor_calls stdround numThreadsHint start endIdx policy) @
        replicate (numThreadsOf policy numThreadsHint -
                   length (parallelRangeFor_calls stdround numThreadsHint start endIdx policy)) ident)
       ident \<and>
     length (map (\<lambda>(b, e). func b e ident)
               (parallelRangeFor_calls stdround numThreadsHint start endIdx policy) @
        replicate (numThreadsOf policy numThreadsHint -
                   length (parallelRangeFor_calls stdround numThreadsHint start endIdx policy)) ident) =
       numThreadsOf policy numThreadsHint"
  using parallelReduce_eq(1)[OF assms, of stdround numThreadsHint ident func reduce policy]
    parallelReduce_eq(2)[OF assms, of stdround numThreadsHint policy]
  by simp

theorem parallelReduce_gather_witness:
  "(0 :: int) \<le> 100 \<and>
   parallelReduce roundQuot 8 0 100 0 sumRange (+) kParallel =
     fold (+)
       (map (\<lambda>(b, e). sumRange b e 0) (parallelRangeFor_calls roundQuot 8 0 100 kParallel) @
        replicate (numThreadsOf kParallel 8 -
                   length (parallelRangeFor_calls roundQuot 8 0 100 kParallel)) 0)
       0 \<and>
   parallelReduce roundQuot 8 0 100 0 sumRange (+) kParallel = 4950"
proof -
  have h: "(0 :: int) \<le> 100" by simp
  have ev: "parallelReduce roundQuot 8 0 100 0 sumRange (+) kParallel = 4950" by code_simp
  have g: "parallelReduce roundQuot 8 0 100 0 sumRange (+) kParallel =
     fold (+)
       (map (\<lambda>(b, e). sumRange b e 0) (parallelRangeFor_calls roundQuot 8 0 100 kParallel) @
        replicate (numThreadsOf kParallel 8 -
                   length (parallelRangeFor_calls roundQuot 8 0 100 kParallel)) 0)
       0"
    by (rule parallelReduce_gather[OF h, of roundQuot 8 0 sumRange "(+)" kParallel,
               THEN conjunct1])
  show ?thesis by (intro conjI h g ev)
qed

text \<open>
  Claim C3, as amended. Over an empty domain (\<open>start = endIdx\<close>) \<^verbatim>\<open>parallelReduce\<close> returns,
  for both policies, \<open>ident\<close> combined with itself once per worker slot,
  \<^verbatim>\<open>reduce(identity, ... reduce(identity, identity))\<close> with \<open>numThreads\<close> applications; this
  is exactly \<open>ident\<close> whenever \<^verbatim>\<open>reduce(identity, identity)\<close> is \<open>ident\<close>.
\<close>

theorem parallelReduce_empty_domain:
  "parallelReduce stdround numThreadsHint start start ident func reduce policy =
     ((reduce ident) ^^ numThreadsOf policy numThreadsHint) ident \<and>
   (reduce ident ident = ident \<longrightarrow>
      parallelReduce stdround numThreadsHint start start ident func reduce policy = ident)"
proof -
  have v: "parallelReduce stdround numThreadsHint start start ident func reduce policy =
     ((reduce ident) ^^ numThreadsOf policy numThreadsHint) ident"
    using parallelReduce_eq(1)[of start start stdround numThreadsHint ident func reduce policy]
    by (simp add: parallelRangeFor_calls_empty fold_replicate)
  have "((reduce ident) ^^ k) ident = ident" if "reduce ident ident = ident" for k
    using that by (induction k) simp_all
  then show ?thesis using v by simp
qed

theorem parallelReduce_empty_domain_witness:
  "(0 :: int) + 0 = 0 \<and> parallelReduce roundQuot 8 5 5 0 sumRange (+) kParallel = 0"
  using parallelReduce_empty_domain[of roundQuot 8 5 0 sumRange "(+)" kParallel] by simp

text \<open>
  With \<open>1\<close> for the identity and addition for the combination the result over an empty
  domain is not \<open>1\<close>: 2 under \<^verbatim>\<open>kSerial\<close> (one slot), 9 under \<^verbatim>\<open>kParallel\<close> with the fallback
  of 8 workers.
\<close>

theorem parallelReduce_empty_domain_counterexample:
  "parallelReduce roundQuot 8 5 5 1 sumRange (+) kSerial = 2 \<and>
   parallelReduce roundQuot 0 5 5 1 sumRange (+) kParallel = 9"
  by code_simp

end
